theory Spec2Isabelle
  imports Main "HOL-Library.Word" "HOL-Library.Multiset"
begin

unbundle bit_operations_syntax

section \<open>Values, rows and items (package btree)\<close>

type_synonym byte = "8 word"

text \<open>
  A Go value of interface type \<open>any\<close>, as far as \<open>appendAny\<close> and \<open>ToInt\<close> tell
  dynamic types apart. Strings are byte sequences (\<open>string\<close> is a list of 8-bit
  characters, \<open>length\<close> is Go's \<open>len\<close>). A \<open>float32\<close> is held as the IEEE-754 bits
  of its exact widening \<open>float64(x)\<close>, a \<open>float64\<close> as its own bits
  (\<open>math.Float64bits\<close>). \<open>VOther r\<close> is a value of any other dynamic type (a slice,
  a map, a struct, a channel ...), together with what \<open>json.Marshal\<close> returns for it:
  \<open>Some b\<close> the bytes, \<open>None\<close> an error.
\<close>

datatype any =
    VNil
  | VBool bool
  | VInt "64 word"
  | VInt8 "8 word"
  | VInt16 "16 word"
  | VInt32 "32 word"
  | VInt64 "64 word"
  | VUint "64 word"
  | VUint8 "8 word"
  | VUint16 "16 word"
  | VUint32 "32 word"
  | VUint64 "64 word"
  | VFloat32 "64 word"
  | VFloat64 "64 word"
  | VNumber string
  | VString string
  | VBytes "byte list"
  | VOther "byte list option"

text \<open>
  \<open>type Row map[string]any\<close>: \<open>None\<close> is the nil map, \<open>Some kvs\<close> a map whose
  entries are \<open>kvs\<close>, listed in the order a \<open>range\<close> loop happens to visit them
  (Go leaves that order unspecified; every order is some list). Keys are distinct
  in a list that stands for a map.
\<close>

type_synonym Row = "(string \<times> any) list option"

datatype Item = Item (PK: int) (Row: Row)

text \<open>The zero value \<open>Item{}\<close>.\<close>

definition zeroItem :: Item where
  "zeroItem = Item 0 None"

definition entries :: "Row \<Rightarrow> (string \<times> any) list" where
  "entries r = (case r of None \<Rightarrow> [] | Some kvs \<Rightarrow> kvs)"


section \<open>The record writer (package btreeWriting)\<close>

datatype error =
    TooManyFields
  | FieldNameTooLong
  | Uint64TooLarge
  | MarshalFailed
  | SinkError

definition tagNil :: byte where "tagNil = 0"
definition tagBool :: byte where "tagBool = 1"
definition tagInt64 :: byte where "tagInt64 = 2"
definition tagFloat :: byte where "tagFloat = 3"
definition tagString :: byte where "tagString = 4"
definition tagBytes :: byte where "tagBytes = 5"
definition tagJSON :: byte where "tagJSON = 6"

subsection \<open>Append helpers (little-endian)\<close>

definition appendU16 :: "byte list \<Rightarrow> 16 word \<Rightarrow> byte list" where
  "appendU16 dst v = dst @ [ucast v, ucast (drop_bit 8 v)]"

definition appendU32 :: "byte list \<Rightarrow> 32 word \<Rightarrow> byte list" where
  "appendU32 dst v =
     dst @ [ucast v, ucast (drop_bit 8 v), ucast (drop_bit 16 v), ucast (drop_bit 24 v)]"

definition appendI64 :: "byte list \<Rightarrow> 64 word \<Rightarrow> byte list" where
  "appendI64 dst v =
     dst @ [ucast v, ucast (drop_bit 8 v), ucast (drop_bit 16 v), ucast (drop_bit 24 v),
            ucast (drop_bit 32 v), ucast (drop_bit 40 v), ucast (drop_bit 48 v),
            ucast (drop_bit 56 v)]"

definition appendF64 :: "byte list \<Rightarrow> 64 word \<Rightarrow> byte list" where
  "appendF64 dst bits = appendI64 dst bits"

definition bytesOf :: "string \<Rightarrow> byte list" where
  "bytesOf s = map of_char s"

subsection \<open>\<open>strconv.ParseInt(s, 10, 64)\<close>, which \<open>json.Number.Int64\<close> calls\<close>

text \<open>
  The Go standard library's parser, from its documentation: an optional sign, then
  one or more decimal digits and nothing else; a value outside the signed 64-bit
  range is a range error. \<open>None\<close> is either error.
\<close>

definition isDigit :: "char \<Rightarrow> bool" where
  "isDigit c = (48 \<le> (of_char c :: nat) \<and> (of_char c :: nat) \<le> 57)"

definition digitsValue :: "string \<Rightarrow> nat" where
  "digitsValue s = foldl (\<lambda>acc c. 10 * acc + ((of_char c :: nat) - 48)) 0 s"

definition parseUnsigned :: "string \<Rightarrow> nat option" where
  "parseUnsigned s = (if s \<noteq> [] \<and> list_all isDigit s then Some (digitsValue s) else None)"

definition parseInt64 :: "string \<Rightarrow> int option" where
  "parseInt64 s =
     (case s of
        [] \<Rightarrow> None
      | c # rest \<Rightarrow>
          if c = CHR ''-'' then
            (case parseUnsigned rest of
               None \<Rightarrow> None
             | Some m \<Rightarrow> if int m \<le> 2 ^ 63 then Some (- int m) else None)
          else
            (case parseUnsigned (if c = CHR ''+'' then rest else s) of
               None \<Rightarrow> None
             | Some m \<Rightarrow> if int m < 2 ^ 63 then Some (int m) else None))"

subsection \<open>\<open>appendAny\<close>\<close>

text \<open>
  As in the source, the destination buffer is returned on the error paths too.
\<close>

fun appendAny :: "byte list \<Rightarrow> any \<Rightarrow> byte list \<times> error option" where
  "appendAny dst VNil = (dst @ [tagNil], None)"
| "appendAny dst (VBool x) = ((dst @ [tagBool]) @ [if x then 1 else 0], None)"
| "appendAny dst (VInt x) = (appendI64 (dst @ [tagInt64]) x, None)"
| "appendAny dst (VInt8 x) = (appendI64 (dst @ [tagInt64]) (scast x), None)"
| "appendAny dst (VInt16 x) = (appendI64 (dst @ [tagInt64]) (scast x), None)"
| "appendAny dst (VInt32 x) = (appendI64 (dst @ [tagInt64]) (scast x), None)"
| "appendAny dst (VInt64 x) = (appendI64 (dst @ [tagInt64]) x, None)"
| "appendAny dst (VUint x) = (appendI64 (dst @ [tagInt64]) x, None)"
| "appendAny dst (VUint8 x) = (appendI64 (dst @ [tagInt64]) (ucast x), None)"
| "appendAny dst (VUint16 x) = (appendI64 (dst @ [tagInt64]) (ucast x), None)"
| "appendAny dst (VUint32 x) = (appendI64 (dst @ [tagInt64]) (ucast x), None)"
| "appendAny dst (VUint64 x) =
     (if uint x > 2 ^ 63 - 1 then (dst, Some Uint64TooLarge)
      else (appendI64 (dst @ [tagInt64]) x, None))"
| "appendAny dst (VFloat32 x) = (appendF64 (dst @ [tagFloat]) x, None)"
| "appendAny dst (VFloat64 x) = (appendF64 (dst @ [tagFloat]) x, None)"
| "appendAny dst (VNumber x) =
     (case parseInt64 x of
        Some i64 \<Rightarrow> (appendI64 (dst @ [tagInt64]) (word_of_int i64), None)
      | None \<Rightarrow> (appendU32 (dst @ [tagString]) (of_nat (length x)) @ bytesOf x, None))"
| "appendAny dst (VString x) =
     (appendU32 (dst @ [tagString]) (of_nat (length x)) @ bytesOf x, None)"
| "appendAny dst (VBytes x) =
     (appendU32 (dst @ [tagBytes]) (of_nat (length x)) @ x, None)"
| "appendAny dst (VOther r) =
     (case r of
        None \<Rightarrow> (dst, Some MarshalFailed)
      | Some b \<Rightarrow> (appendU32 (dst @ [tagJSON]) (of_nat (length b)) @ b, None))"

subsection \<open>\<open>encodeItemInto\<close>\<close>

text \<open>The \<open>range\<close> loop over the row, leaving at the first error.\<close>

fun encodeFields :: "byte list \<Rightarrow> (string \<times> any) list \<Rightarrow> byte list \<times> error option" where
  "encodeFields dst [] = (dst, None)"
| "encodeFields dst ((k, v) # kvs) =
     (if length k > 255 then (dst, Some FieldNameTooLong)
      else
        (case appendAny ((dst @ [of_nat (length k)]) @ bytesOf k) v of
           (dst', Some e) \<Rightarrow> (dst', Some e)
         | (dst', None) \<Rightarrow> encodeFields dst' kvs))"

definition encodeItemInto :: "byte list \<Rightarrow> Item \<Rightarrow> byte list \<times> error option" where
  "encodeItemInto dst it =
     (let dst1 = appendU32 dst (word_of_int (PK it)) in
      if length (entries (Row it)) > 65535 then (dst1, Some TooManyFields)
      else encodeFields (appendU16 dst1 (of_nat (length (entries (Row it))))) (entries (Row it)))"

subsection \<open>The sink: a \<open>bufio.Writer\<close> over an \<open>os.File\<close>\<close>

text \<open>
  The writer's sink is Go's \<open>bufio.Writer\<close> of size \<open>bufsize\<close> over the file
  \<open>f\<close>. The model keeps what the standard library documents: \<open>Write\<close> buffers its
  argument and passes bytes on to the file when the buffer is full; a failed file
  write makes the buffered writer fail from then on (\<open>bwerr\<close>); \<open>Flush\<close> passes
  the buffered bytes on. The file takes bytes until it is closed or the device is
  full: \<open>space\<close> is the number of bytes the device still takes (\<open>None\<close>: no limit),
  the one thing here that the environment decides.
\<close>

record Writer =
  content :: "byte list"
  fclosed :: bool
  space :: "nat option"
  bwbuf :: "byte list"
  bufsize :: nat
  bwerr :: bool
  BytesWritten :: "64 word"
  Records :: "64 word"

text \<open>\<open>f.Write(p)\<close>: the writer after it, and whether it failed.\<close>

definition fileWrite :: "Writer \<Rightarrow> byte list \<Rightarrow> Writer \<times> bool" where
  "fileWrite w p =
     (if fclosed w then (w, True)
      else
        (case space w of
           None \<Rightarrow> (w\<lparr>content := content w @ p\<rparr>, False)
         | Some k \<Rightarrow>
             if length p \<le> k then (w\<lparr>content := content w @ p, space := Some (k - length p)\<rparr>, False)
             else (w\<lparr>content := content w @ take k p, space := Some 0\<rparr>, True)))"

text \<open>\<open>bw.Flush()\<close>: \<open>Some SinkError\<close> when it fails.\<close>

definition bwFlush :: "Writer \<Rightarrow> Writer \<times> error option" where
  "bwFlush w =
     (if bwerr w then (w, Some SinkError)
      else if bwbuf w = [] then (w, None)
      else
        (let n0 = length (content w);
             (w1, failed) = fileWrite w (bwbuf w);
             n = length (content w1) - n0
         in if failed then (w1\<lparr>bwbuf := drop n (bwbuf w), bwerr := True\<rparr>, Some SinkError)
            else (w1\<lparr>bwbuf := []\<rparr>, None)))"

text \<open>A write that bypasses the buffer (large write, empty buffer).\<close>

definition bwDirect :: "Writer \<Rightarrow> byte list \<Rightarrow> Writer \<times> error option" where
  "bwDirect w p =
     (let (w1, failed) = fileWrite w p
      in if failed then (w1\<lparr>bwerr := True\<rparr>, Some SinkError) else (w1, None))"

text \<open>
  \<open>bw.Write(p)\<close>. The library's loop runs at most twice: it fills and flushes a
  partly filled buffer, then either writes the rest directly or buffers it.
\<close>

definition bwWrite :: "Writer \<Rightarrow> byte list \<Rightarrow> Writer \<times> error option" where
  "bwWrite w p =
     (if bwerr w then (w, Some SinkError)
      else if length p \<le> bufsize w - length (bwbuf w) then (w\<lparr>bwbuf := bwbuf w @ p\<rparr>, None)
      else if bwbuf w = [] then bwDirect w p
      else
        (let a = bufsize w - length (bwbuf w);
             (w1, e) = bwFlush (w\<lparr>bwbuf := bwbuf w @ take a p\<rparr>);
             p1 = drop a p
         in if e \<noteq> None then (w1, e)
            else if length p1 \<le> bufsize w1 then (w1\<lparr>bwbuf := p1\<rparr>, None)
            else bwDirect w1 p1))"

definition writeU32ToWriter :: "Writer \<Rightarrow> 32 word \<Rightarrow> Writer \<times> error option" where
  "writeU32ToWriter w v = bwWrite w (appendU32 [] v)"

text \<open>\<open>NewWriter(f)\<close> on a file just opened (created or truncated).\<close>

definition NewWriter :: "nat option \<Rightarrow> Writer" where
  "NewWriter sp =
     \<lparr>content = [], fclosed = False, space = sp, bwbuf = [], bufsize = 16 * 2 ^ 20,
      bwerr = False, BytesWritten = 0, Records = 0\<rparr>"

text \<open>
  \<open>WriteItem\<close>. The pooled scratch buffer is cut to length 0 before use and only
  handed back afterwards, so it carries nothing from one call to the next and is
  left out of the state.
\<close>

definition WriteItem :: "Writer \<Rightarrow> Item \<Rightarrow> Writer \<times> error option" where
  "WriteItem w it =
     (case encodeItemInto [] it of
        (buf, Some e) \<Rightarrow> (w, Some e)
      | (buf, None) \<Rightarrow>
          (let recBytes = (of_nat (4 + length buf) :: 64 word) in
           case writeU32ToWriter w (of_nat (length buf)) of
             (w1, Some e) \<Rightarrow> (w1, Some e)
           | (w1, None) \<Rightarrow>
               (case bwWrite w1 buf of
                  (w2, Some e) \<Rightarrow> (w2, Some e)
                | (w2, None) \<Rightarrow>
                    (w2\<lparr>BytesWritten := BytesWritten w2 + recBytes,
                        Records := Records w2 + 1\<rparr>, None))))"

definition Flush :: "Writer \<Rightarrow> Writer \<times> error option" where
  "Flush w = bwFlush w"

text \<open>\<open>Close\<close>: the file is closed whether the flush failed or not.\<close>

definition Close :: "Writer \<Rightarrow> Writer \<times> error option" where
  "Close w =
     (case bwFlush w of
        (w1, Some e) \<Rightarrow> (w1\<lparr>fclosed := True\<rparr>, Some e)
      | (w1, None) \<Rightarrow>
          if fclosed w1 then (w1, Some SinkError) else (w1\<lparr>fclosed := True\<rparr>, None))"


section \<open>The B-tree (package btree)\<close>

text \<open>
  A node owns its children and no node is shared, so the pointer structure is a
  tree and \<open>*node\<close> is a value here; updating a node in place is returning the
  new node. The fields \<open>t\<close>, \<open>root\<close> and \<open>n\<close> of \<open>BTree\<close> are \<open>bt_t\<close>,
  \<open>bt_root\<close> and \<open>bt_n\<close>. Lengths, indices and the counter \<open>n\<close> are natural
  numbers: a slice has fewer than \<open>2 ^ 63\<close> elements, so Go's 64-bit \<open>int\<close> does
  not wrap on them. A read or a slice expression out of range panics: \<open>None\<close>.
\<close>

datatype node = Node (leaf: bool) (items: "Item list") (children: "node list")

record BTree =
  bt_t :: nat
  bt_root :: node
  bt_n :: nat

definition New :: "int \<Rightarrow> BTree" where
  "New t0 = \<lparr>bt_t = (if t0 < 2 then 2 else nat t0), bt_root = Node True [] [], bt_n = 0\<rparr>"

text \<open>\<open>sort.Search(n, f)\<close>: the standard library's binary search.\<close>

function Search_loop :: "nat \<Rightarrow> nat \<Rightarrow> (nat \<Rightarrow> bool) \<Rightarrow> nat" where
  "Search_loop i j f =
     (if i < j then
        (let h = (i + j) div 2
         in if \<not> f h then Search_loop (h + 1) j f else Search_loop i h f)
      else i)"
  by pat_completeness auto
termination
  by (relation "measure (\<lambda>(i, j, f). j - i)") auto

declare Search_loop.simps [simp del]

definition Search :: "nat \<Rightarrow> (nat \<Rightarrow> bool) \<Rightarrow> nat" where
  "Search n f = Search_loop 0 n f"

text \<open>Number of nodes and items below a node: the measure of the recursions.\<close>

fun tsize :: "node \<Rightarrow> nat" where
  "tsize (Node lf its chs) = 1 + length its + sum_list (map tsize chs)"

text \<open>
  \<open>splitChild(n, i)\<close>: the node \<open>n\<close> afterwards. The child \<open>y\<close> is cut in place
  and the new node \<open>z\<close> is put right after it.
\<close>

definition splitChild :: "nat \<Rightarrow> node \<Rightarrow> nat \<Rightarrow> node option" where
  "splitChild t n i =
     (if i \<ge> length (children n) then None
      else
        (let y = children n ! i in
         if t = 0 \<or> t - 1 \<ge> length (items y) then None
         else if \<not> leaf y \<and> t > length (children y) then None
         else if i > length (items n) then None
         else
           (let median = items y ! (t - 1);
                z = Node (leaf y) (drop t (items y))
                      (if leaf y then [] else drop t (children y));
                y' = Node (leaf y) (take (t - 1) (items y))
                      (if leaf y then children y else take t (children y))
            in Some (Node (leaf n)
                       (take i (items n) @ median # drop i (items n))
                       (take i (children n) @ y' # z # drop (i + 1) (children n))))))"

lemma tsize_nth_less:
  "i < length chs \<Longrightarrow> tsize (chs ! i) < tsize (Node lf its chs)"
proof -
  assume "i < length chs"
  then have "tsize (chs ! i) \<in> set (map tsize chs)" by simp
  then have "tsize (chs ! i) \<le> sum_list (map tsize chs)" by (simp add: member_le_sum_list)
  then show ?thesis by simp
qed

lemma tsize_pos: "0 < tsize m"
  by (cases m) simp

lemma tsize_split_parts:
  assumes "0 < t" "t - 1 < length its"
  shows "tsize (Node lf (take (t - 1) its) (if lf then chs else take t chs))
           < tsize (Node lf its chs)"
    and "tsize (Node lf (drop t its) (if lf then [] else drop t chs))
           < tsize (Node lf its chs)"
proof -
  have a: "sum_list (map tsize (take t chs)) \<le> sum_list (map tsize chs)"
    by (metis append_take_drop_id le_add1 map_append sum_list.append)
  have b: "sum_list (map tsize (drop t chs)) \<le> sum_list (map tsize chs)"
    by (metis append_take_drop_id le_add2 map_append sum_list.append)
  show "tsize (Node lf (take (t - 1) its) (if lf then chs else take t chs))
           < tsize (Node lf its chs)"
    using assms a by auto
  show "tsize (Node lf (drop t its) (if lf then [] else drop t chs))
           < tsize (Node lf its chs)"
    using assms b by auto
qed

lemma splitChild_child_tsize:
  assumes "splitChild t n i = Some n'" "j < length (children n')"
  shows "tsize (children n' ! j) < tsize n"
proof -
  obtain lf its chs where n: "n = Node lf its chs" by (cases n)
  from assms(1) have i: "i < length chs" and t: "0 < t" "t - 1 < length (items (chs ! i))"
    by (auto simp: splitChild_def n Let_def split: if_splits)
  obtain ylf yits ychs where y: "chs ! i = Node ylf yits ychs" by (cases "chs ! i")
  define y' where "y' = Node ylf (take (t - 1) yits) (if ylf then ychs else take t ychs)"
  define z where "z = Node ylf (drop t yits) (if ylf then [] else drop t ychs)"
  from assms(1) have ch: "children n' = take i chs @ y' # z # drop (i + 1) chs"
    by (auto simp: splitChild_def n y y'_def z_def Let_def split: if_splits)
  have ylt: "tsize (chs ! i) < tsize n" using i by (simp add: n tsize_nth_less del: tsize.simps)
  have y'lt: "tsize y' < tsize (chs ! i)" and zlt: "tsize z < tsize (chs ! i)"
    using tsize_split_parts[of t yits ylf ychs] t unfolding y y'_def z_def by simp_all
  consider "j < i" | "j = i" | "j = i + 1" | "j > i + 1" by linarith
  then show ?thesis
  proof cases
    case 1
    then have "children n' ! j = chs ! j" using i by (simp add: ch nth_append)
    moreover have "j < length chs" using 1 i by simp
    ultimately show ?thesis by (simp add: n tsize_nth_less del: tsize.simps)
  next
    case 2
    then have "children n' ! j = y'" using i by (simp add: ch nth_append)
    then show ?thesis using y'lt ylt by simp
  next
    case 3
    then have "children n' ! j = z" using i by (simp add: ch nth_append)
    then show ?thesis using zlt ylt by simp
  next
    case 4
    have "Suc i < j" using 4 by simp
    moreover have "Suc (j - 2) = j - 1" using 4 by simp
    ultimately have "children n' ! j = chs ! (j - 1)"
      using i by (simp add: ch nth_append nth_Cons')
    moreover have "j - 1 < length chs" using 4 i assms(2) by (simp add: ch)
    ultimately show ?thesis by (simp add: n tsize_nth_less del: tsize.simps)
  qed
qed

text \<open>
  \<open>insertNonFull(n, it)\<close>: the node afterwards, and the two results.
\<close>

function insertNonFull :: "nat \<Rightarrow> node \<Rightarrow> Item \<Rightarrow> (node \<times> Item \<times> bool) option" where
  "insertNonFull t n it =
     (let i = Search (length (items n)) (\<lambda>j. PK (items n ! j) \<ge> PK it) in
      if leaf n then
        (if i < length (items n) \<and> PK (items n ! i) = PK it
         then Some (Node (leaf n) ((items n)[i := it]) (children n), items n ! i, True)
         else Some (Node (leaf n) (take i (items n) @ it # drop i (items n)) (children n),
                    zeroItem, False))
      else if i < length (items n) \<and> PK (items n ! i) = PK it
        then Some (Node (leaf n) ((items n)[i := it]) (children n), items n ! i, True)
      else if i \<ge> length (children n) then None
      else if int (length (items (children n ! i))) = 2 * int t - 1 then
        (case splitChild t n i of
           None \<Rightarrow> None
         | Some n' \<Rightarrow>
             if PK it > PK (items n' ! i) then
               (if i + 1 < length (children n') then
                  (case insertNonFull t (children n' ! (i + 1)) it of
                     None \<Rightarrow> None
                   | Some (c', old, replaced) \<Rightarrow>
                       Some (Node (leaf n') (items n') ((children n')[i + 1 := c']),
                             old, replaced))
                else None)
             else if PK it = PK (items n' ! i) then
               Some (Node (leaf n') ((items n')[i := it]) (children n'), items n' ! i, True)
             else
               (if i < length (children n') then
                  (case insertNonFull t (children n' ! i) it of
                     None \<Rightarrow> None
                   | Some (c', old, replaced) \<Rightarrow>
                       Some (Node (leaf n') (items n') ((children n')[i := c']),
                             old, replaced))
                else None))
      else
        (case insertNonFull t (children n ! i) it of
           None \<Rightarrow> None
         | Some (c', old, replaced) \<Rightarrow>
             Some (Node (leaf n) (items n) ((children n)[i := c']), old, replaced)))"
  by pat_completeness auto
termination
proof (relation "measure (\<lambda>(t, n, it). tsize n)")
  show "wf (measure (\<lambda>(t, n, it). tsize n))" by simp
next
  fix t :: nat and n :: node and it :: Item and i :: nat and n' :: node
  assume "splitChild t n i = Some n'" "i + 1 < length (children n')"
  then show "((t, children n' ! (i + 1), it), t, n, it) \<in> measure (\<lambda>(t, n, it). tsize n)"
    using splitChild_child_tsize by simp
next
  fix t :: nat and n :: node and it :: Item and i :: nat and n' :: node
  assume "splitChild t n i = Some n'" "i < length (children n')"
  then show "((t, children n' ! i, it), t, n, it) \<in> measure (\<lambda>(t, n, it). tsize n)"
    using splitChild_child_tsize by simp
next
  fix t :: nat and n :: node and it :: Item and i :: nat
  assume "\<not> length (children n) \<le> i"
  then show "((t, children n ! i, it), t, n, it) \<in> measure (\<lambda>(t, n, it). tsize n)"
    by (cases n) (simp add: tsize_nth_less del: tsize.simps)
qed

declare insertNonFull.simps [simp del]

definition Upsert :: "BTree \<Rightarrow> Item \<Rightarrow> (BTree \<times> Item \<times> bool) option" where
  "Upsert tr it =
     (let r = bt_root tr in
      if int (length (items r)) = 2 * int (bt_t tr) - 1 then
        (case splitChild (bt_t tr) (Node False [] [r]) 0 of
           None \<Rightarrow> None
         | Some s \<Rightarrow>
             (case insertNonFull (bt_t tr) s it of
                None \<Rightarrow> None
              | Some (s', old, replaced) \<Rightarrow>
                  Some (tr\<lparr>bt_root := s',
                           bt_n := (if \<not> replaced then bt_n tr + 1 else bt_n tr)\<rparr>,
                        old, replaced)))
      else
        (case insertNonFull (bt_t tr) r it of
           None \<Rightarrow> None
         | Some (r', old, replaced) \<Rightarrow>
             Some (tr\<lparr>bt_root := r',
                      bt_n := (if \<not> replaced then bt_n tr + 1 else bt_n tr)\<rparr>,
                   old, replaced)))"

definition Len :: "BTree \<Rightarrow> nat" where
  "Len tr = bt_n tr"

definition IsEmpty :: "BTree \<Rightarrow> bool" where
  "IsEmpty tr = (bt_n tr = 0)"

subsection \<open>The ascending cursor\<close>

text \<open>
  \<open>Iter.stack\<close>, held with the top frame first; a frame is the node and the
  index \<open>i\<close>.
\<close>

type_synonym iterFrame = "node \<times> nat"

function pushLeft :: "iterFrame list \<Rightarrow> node \<Rightarrow> iterFrame list option" where
  "pushLeft st n =
     (let st' = (n, 0) # st in
      if leaf n then Some st'
      else if 0 < length (children n) then pushLeft st' (children n ! 0)
      else None)"
  by pat_completeness auto
termination
proof (relation "measure (\<lambda>(st, n). tsize n)")
  show "wf (measure (\<lambda>(st, n). tsize n))" by simp
next
  fix st :: "iterFrame list" and n :: node and st' :: "iterFrame list"
  assume "0 < length (children n)"
  then show "((st', children n ! 0), st, n) \<in> measure (\<lambda>(st, n). tsize n)"
    by (cases n) (simp add: tsize_nth_less del: tsize.simps)
qed

declare pushLeft.simps [simp del]

definition IterAscend :: "BTree \<Rightarrow> iterFrame list option" where
  "IterAscend tr = pushLeft [] (bt_root tr)"

text \<open>\<open>Next\<close>: the item, \<open>ok\<close>, and the cursor afterwards.\<close>

fun Next :: "iterFrame list \<Rightarrow> (Item \<times> bool \<times> iterFrame list) option" where
  "Next [] = Some (zeroItem, False, [])"
| "Next ((n, i) # st) =
     (if i < length (items n) then
        (let item = items n ! i in
         if \<not> leaf n then
           (if i + 1 < length (children n) then
              (case pushLeft ((n, i + 1) # st) (children n ! (i + 1)) of
                 None \<Rightarrow> None
               | Some st' \<Rightarrow> Some (item, True, st'))
            else None)
         else Some (item, True, (n, i + 1) # st))
      else Next st)"

text \<open>What the frames of a cursor still have in front of them: the measure of its loops.\<close>

definition frameWeight :: "iterFrame \<Rightarrow> nat" where
  "frameWeight fr =
     (length (items (fst fr)) - snd fr)
       + sum_list (map tsize (drop (snd fr + 1) (children (fst fr))))"

definition pending :: "iterFrame list \<Rightarrow> nat" where
  "pending st = sum_list (map frameWeight st)"

lemma sum_list_drop_Suc_le:
  "sum_list (map f (drop (Suc k) xs)) \<le> sum_list (map (f :: 'a \<Rightarrow> nat) (drop k xs))"
proof (cases "k < length xs")
  case True
  then have "drop k xs = xs ! k # drop (Suc k) xs" by (simp add: Cons_nth_drop_Suc)
  then show ?thesis by simp
next
  case False
  then show ?thesis by simp
qed

lemma pushLeft_pending:
  "pushLeft st n = Some st' \<Longrightarrow> pending st' < pending st + tsize n"
proof (induction st n arbitrary: st' rule: pushLeft.induct)
  case (1 st n)
  obtain lf its chs where n: "n = Node lf its chs" by (cases n)
  have w: "frameWeight (n, 0) + sum_list (map tsize (take 1 chs)) < tsize n"
  proof -
    have "sum_list (map tsize (take 1 chs)) + sum_list (map tsize (drop 1 chs))
            = sum_list (map tsize chs)"
      by (metis append_take_drop_id map_append sum_list.append)
    then show ?thesis by (simp add: frameWeight_def n)
  qed
  show ?case
  proof (cases "leaf n")
    case True
    with "1.prems" have "st' = (n, 0) # st" by (simp add: pushLeft.simps[of st n] Let_def)
    then show ?thesis using w by (simp add: pending_def)
  next
    case False
    with "1.prems" have c: "0 < length (children n)"
      and p: "pushLeft ((n, 0) # st) (children n ! 0) = Some st'"
      by (auto simp: pushLeft.simps[of st n] Let_def split: if_splits)
    from "1.IH"[OF refl False c p]
    have "pending st' < pending ((n, 0) # st) + tsize (children n ! 0)" .
    moreover have "sum_list (map tsize (take 1 chs)) = tsize (children n ! 0)"
      using c by (cases chs) (simp_all add: n)
    ultimately show ?thesis using w by (simp add: pending_def)
  qed
qed

lemma Next_pending:
  "Next st = Some (item, True, st') \<Longrightarrow> pending st' < pending st"
proof (induction st rule: Next.induct)
  case 1
  then show ?case by simp
next
  case (2 n i st)
  show ?case
  proof (cases "i < length (items n)")
    case False
    with 2 have "pending st' < pending st" by simp
    then show ?thesis by (simp add: pending_def)
  next
    case True
    note i = True
    show ?thesis
    proof (cases "leaf n")
      case True
      with i "2.prems" have st': "st' = (n, i + 1) # st" by (simp add: Let_def)
      have "sum_list (map tsize (drop (i + 2) (children n)))
              \<le> sum_list (map tsize (drop (i + 1) (children n)))"
        using sum_list_drop_Suc_le[of tsize "i + 1" "children n"] by simp
      then show ?thesis using i by (simp add: st' pending_def frameWeight_def)
    next
      case False
      with i "2.prems" have c: "i + 1 < length (children n)"
        and p: "pushLeft ((n, i + 1) # st) (children n ! (i + 1)) = Some st'"
        by (auto simp: Let_def split: if_splits option.splits)
      have "drop (i + 1) (children n) = children n ! (i + 1) # drop (i + 2) (children n)"
        using c by (simp add: Cons_nth_drop_Suc)
      then have "frameWeight (n, i) = frameWeight (n, i + 1) + tsize (children n ! (i + 1)) + 1"
        using i by (simp add: frameWeight_def)
      then show ?thesis using pushLeft_pending[OF p] by (simp add: pending_def)
    qed
  qed
qed

text \<open>A cursor driven by \<open>Next\<close> until it reports no more items: the items it emits.\<close>

function collect :: "iterFrame list \<Rightarrow> Item list option" where
  "collect st =
     (case Next st of
        None \<Rightarrow> None
      | Some (item, ok, st') \<Rightarrow>
          if \<not> ok then Some []
          else (case collect st' of None \<Rightarrow> None | Some xs \<Rightarrow> Some (item # xs)))"
  by pat_completeness auto
termination
  by (relation "measure pending") (auto simp: Next_pending)

declare collect.simps [simp del]

subsection \<open>\<open>AscendRange\<close>\<close>

text \<open>
  The visitor \<open>fn\<close> is a closure: it is given its captured state, the item, and
  returns the state afterwards with its boolean result. \<open>ascendFrom n i\<close> is the
  \<open>for\<close> loop of \<open>ascendRangeNode\<close> from index \<open>i\<close> on, with the code after it;
  the boolean is the function's result.
\<close>

function ascendFrom ::
    "node \<Rightarrow> nat \<Rightarrow> int \<Rightarrow> int \<Rightarrow> ('s \<Rightarrow> Item \<Rightarrow> 's \<times> bool) \<Rightarrow> 's \<Rightarrow> ('s \<times> bool) option" where
  "ascendFrom n i lo hi fn s =
     (if i < length (items n) then
        (case (if \<not> leaf n then
                 (if i < length (children n) then ascendFrom (children n ! i) 0 lo hi fn s
                  else None)
               else Some (s, True)) of
           None \<Rightarrow> None
         | Some (s1, cont) \<Rightarrow>
             if \<not> cont then Some (s1, False)
             else
               (let pk = PK (items n ! i);
                    r = (if pk \<ge> lo \<and> pk < hi then fn s1 (items n ! i) else (s1, True))
                in if \<not> snd r then Some (fst r, False)
                   else if pk \<ge> hi then Some (fst r, False)
                   else ascendFrom n (i + 1) lo hi fn (fst r)))
      else if \<not> leaf n then
        (if length (items n) < length (children n)
         then ascendFrom (children n ! length (items n)) 0 lo hi fn s
         else None)
      else Some (s, True))"
  by pat_completeness auto
termination
proof (relation "measures [\<lambda>(n, i, lo, hi, fn, s). tsize n,
                           \<lambda>(n, i, lo, hi, fn, s). length (items n) - i]")
  show "wf (measures [\<lambda>(n, i, lo, hi, fn, s). tsize n,
                      \<lambda>(n :: node, i, lo :: int, hi :: int, fn :: 's \<Rightarrow> Item \<Rightarrow> 's \<times> bool, s :: 's).
                         length (items n) - i])"
    by simp
qed (auto simp: tsize_nth_less[of _ "children (n :: node)" "leaf n" "items n" for n, simplified])

declare ascendFrom.simps [simp del]

definition ascendRangeNode ::
    "node \<Rightarrow> int \<Rightarrow> int \<Rightarrow> ('s \<Rightarrow> Item \<Rightarrow> 's \<times> bool) \<Rightarrow> 's \<Rightarrow> ('s \<times> bool) option" where
  "ascendRangeNode n lo hi fn s = ascendFrom n 0 lo hi fn s"

text \<open>\<open>AscendRange\<close>: the visitor's state afterwards.\<close>

definition AscendRange ::
    "BTree \<Rightarrow> int \<Rightarrow> int \<Rightarrow> ('s \<Rightarrow> Item \<Rightarrow> 's \<times> bool) \<Rightarrow> 's \<Rightarrow> 's option" where
  "AscendRange tr lo hi fn s = map_option fst (ascendRangeNode (bt_root tr) lo hi fn s)"

section \<open>The ingestion driver (package main)\<close>

subsection \<open>Conversions and file names\<close>

text \<open>\<open>fmt.Sprintf("%d", k)\<close>.\<close>

fun showNat :: "nat \<Rightarrow> string" where
  "showNat k = (if k < 10 then [char_of (48 + k)] else showNat (k div 10) @ [char_of (48 + k mod 10)])"

declare showNat.simps [simp del]

definition showInt :: "int \<Rightarrow> string" where
  "showInt k = (if k < 0 then CHR ''-'' # showNat (nat (- k)) else showNat (nat k))"

text \<open>
  \<open>float64\<close> to \<open>int\<close> in \<open>ToInt\<close>, on the IEEE-754 bits: \<open>None\<close> when
  \<open>math.Trunc(x) != x\<close> (a fraction, or NaN). A whole value outside the 64-bit
  range (or an infinity) converts to an implementation-dependent \<open>int\<close>; the model
  takes the smallest \<open>int\<close>, as amd64 does.
\<close>

definition floatToInt :: "64 word \<Rightarrow> int option" where
  "floatToInt bits =
     (let neg = bit bits 63;
          e = uint (drop_bit 52 bits AND 2047);
          m = uint (bits AND (2 ^ 52 - 1))
      in if e = 2047 then (if m \<noteq> 0 then None else Some (- (2 ^ 63)))
         else
           (let M = (if e = 0 then m else m + 2 ^ 52);
                sh = (if e = 0 then 1074 else nat (1075 - e))
            in if e \<ge> 1075 then
                 (let v = (if neg then - (M * 2 ^ nat (e - 1075)) else M * 2 ^ nat (e - 1075))
                  in if - (2 ^ 63) \<le> v \<and> v < 2 ^ 63 then Some v else Some (- (2 ^ 63)))
               else if M mod 2 ^ sh = 0
                 then Some (if neg then - (M div 2 ^ sh) else M div 2 ^ sh)
               else None))"

text \<open>
  \<open>ToInt\<close>: the \<open>int\<close> and whether there was an error (the \<open>int\<close> is then 0).
  \<open>strconv.Atoi\<close> is \<open>ParseInt(s, 10, 0)\<close> on a 64-bit \<open>int\<close>.
\<close>

fun ToInt :: "any \<Rightarrow> int \<times> bool" where
  "ToInt (VInt x) = (sint x, False)"
| "ToInt (VNumber x) = (case parseInt64 x of None \<Rightarrow> (0, True) | Some i64 \<Rightarrow> (i64, False))"
| "ToInt (VFloat64 x) = (case floatToInt x of None \<Rightarrow> (0, True) | Some i \<Rightarrow> (i, False))"
| "ToInt (VString x) = (case parseInt64 x of None \<Rightarrow> (0, True) | Some i \<Rightarrow> (i, False))"
| "ToInt _ = (0, True)"

subsection \<open>State\<close>

text \<open>
  The package's variables, and the files of the storage directory: \<open>files\<close> maps
  a file's name inside \<open>storagePath\<close> to its bytes. Opening a segment file for
  writing succeeds and the device takes every byte.
\<close>

record State =
  currentMapSize :: "64 word"
  minKey :: int
  maxKey :: int
  setMinMaxKey :: bool
  tr :: BTree
  files :: "string \<Rightarrow> byte list option"

definition renameFile :: "(string \<Rightarrow> byte list option) \<Rightarrow> string \<Rightarrow> string \<Rightarrow> (string \<Rightarrow> byte list option)" where
  "renameFile fs oldPath newPath =
     (case fs oldPath of
        None \<Rightarrow> fs
      | Some c \<Rightarrow> if oldPath = newPath then fs else (fs(oldPath := None))(newPath \<mapsto> c))"

text \<open>\<open>createNewWriter\<close>: the file is created, or cut to length 0.\<close>

definition createNewWriter ::
    "(string \<Rightarrow> byte list option) \<Rightarrow> string \<Rightarrow> (string \<Rightarrow> byte list option) \<times> Writer" where
  "createNewWriter fs path = (fs(path \<mapsto> []), NewWriter None)"

text \<open>
  \<open>iteratorWriter\<close>: the cursor and the writer afterwards, and the result.
  Logging is left out.
\<close>

function iteratorWriter ::
    "iterFrame list \<Rightarrow> Writer \<Rightarrow> 64 word \<Rightarrow> (iterFrame list \<times> Writer \<times> int) option" where
  "iteratorWriter it spw breakAtBytes =
     (case Next it of
        None \<Rightarrow> None
      | Some (item, ok, it') \<Rightarrow>
          if \<not> ok then Some (it', fst (Close spw), 0)
          else
            (let r = WriteItem spw item;
                 spw1 = (if snd r \<noteq> None then fst (Close (fst r)) else fst r)
             in if BytesWritten spw1 \<ge> breakAtBytes \<and> breakAtBytes \<noteq> 0
                then Some (it', fst (Close spw1), PK item)
                else iteratorWriter it' spw1 breakAtBytes))"
  by pat_completeness auto
termination
  by (relation "measure (\<lambda>(it, spw, b). pending it)") (auto simp: Next_pending)

declare iteratorWriter.simps [simp del]

definition resetInMemoryState :: "State \<Rightarrow> State" where
  "resetInMemoryState s =
     s\<lparr>tr := New 32, currentMapSize := 0, setMinMaxKey := False, minKey := 0, maxKey := 0\<rparr>"

text \<open>
  \<open>writeMapToFile\<close>. A writer's file holds the writer's \<open>content\<close>.
\<close>

definition writeMapToFile :: "State \<Rightarrow> 64 word \<Rightarrow> State option" where
  "writeMapToFile s MaxMemorySize =
     (let HalfMemorySize = MaxMemorySize div 2;
          lowerFile = showInt (minKey s) @ ''_'' @ ''lower'' @ ''.spdb'';
          c = createNewWriter (files s) lowerFile
      in case IterAscend (tr s) of
           None \<Rightarrow> None
         | Some it \<Rightarrow>
             (case iteratorWriter it (snd c) HalfMemorySize of
                None \<Rightarrow> None
              | Some (it1, spw1, minSplitMax) \<Rightarrow>
                  (let finalLower = showInt (minKey s) @ ''_'' @ showInt minSplitMax @ ''.spdb'';
                       fs1 = renameFile ((fst c)(lowerFile \<mapsto> content spw1)) lowerFile finalLower
                   in case Next it1 of
                        None \<Rightarrow> None
                      | Some (item, ok, it2) \<Rightarrow>
                          if \<not> ok then Some (resetInMemoryState (s\<lparr>files := fs1\<rparr>))
                          else
                            (let maxSplitMin = PK item;
                                 upperFile = showInt maxSplitMin @ ''_'' @ showInt (maxKey s) @ ''.spdb'';
                                 c2 = createNewWriter fs1 upperFile;
                                 r = WriteItem (snd c2) item;
                                 spw2 = (if snd r \<noteq> None then fst (Close (fst r)) else fst r)
                             in case iteratorWriter it2 spw2 0 of
                                  None \<Rightarrow> None
                                | Some (it3, spw3, x) \<Rightarrow>
                                    Some (resetInMemoryState
                                            (s\<lparr>files := (fst c2)(upperFile \<mapsto> content spw3)\<rparr>))))))"

subsection \<open>\<open>importDataFromFile\<close>\<close>

text \<open>
  The input file as the scanner hands it over: its size (\<open>info.Size()\<close>) and its
  lines. A line is its bytes and what \<open>readOrderedObject\<close> returns for them: the
  pairs, or \<open>None\<close> for an error (the JSON decoder is the standard library's).
\<close>

type_synonym Pair = "string \<times> any"

datatype Line = Line (raw: string) (decoded: "Pair list option")

record Input =
  sizeBytes :: "64 word"
  lines :: "Line list"

datatype stop = Panic | Exit

text \<open>\<open>tempMap[pair.Key] = pair.Val\<close>.\<close>

fun mapSet :: "(string \<times> any) list \<Rightarrow> string \<Rightarrow> any \<Rightarrow> (string \<times> any) list" where
  "mapSet [] k v = [(k, v)]"
| "mapSet ((k', v') # kvs) k v = (if k' = k then (k, v) # kvs else (k', v') # mapSet kvs k v)"

text \<open>The first pair of a record: the primary key and the trackers.\<close>

definition trackKey :: "State \<Rightarrow> int \<Rightarrow> State" where
  "trackKey s PrimaryKey =
     (let s1 = (if \<not> setMinMaxKey s
                then s\<lparr>minKey := PrimaryKey, maxKey := PrimaryKey, setMinMaxKey := True\<rparr>
                else s);
          s2 = (if PrimaryKey < minKey s1 then s1\<lparr>minKey := PrimaryKey\<rparr> else s1)
      in if PrimaryKey > maxKey s2 then s2\<lparr>maxKey := PrimaryKey\<rparr> else s2)"

text \<open>The body of the scanner loop, for one line.\<close>

definition ingestLine :: "bool \<Rightarrow> 64 word \<Rightarrow> State \<Rightarrow> Line \<Rightarrow> stop + State" where
  "ingestLine writeToDisk MaxMemorySize s ln =
     (let lineSize = (of_nat (length (raw ln)) :: 64 word) in
      case (if writeToDisk \<and> lineSize + currentMapSize s > MaxMemorySize
            then writeMapToFile s MaxMemorySize else Some s) of
        None \<Rightarrow> Inl Panic
      | Some s1 \<Rightarrow>
          (case decoded ln of
             None \<Rightarrow> Inl Exit
           | Some pairs \<Rightarrow>
               (let PrimaryKey = (case pairs of [] \<Rightarrow> 0 | p # ps \<Rightarrow> fst (ToInt (snd p)));
                    s2 = (case pairs of [] \<Rightarrow> s1 | p # ps \<Rightarrow> trackKey s1 PrimaryKey);
                    tempMap = foldl (\<lambda>m p. mapSet m (fst p) (snd p)) [] (tl pairs)
                in case Upsert (tr s2) (Item PrimaryKey (Some tempMap)) of
                     None \<Rightarrow> Inl Panic
                   | Some (tr', old, replaced) \<Rightarrow>
                       Inr (s2\<lparr>tr := tr',
                               currentMapSize := (if writeToDisk then currentMapSize s2 + lineSize
                                                  else currentMapSize s2)\<rparr>))))"

fun ingestLines :: "bool \<Rightarrow> 64 word \<Rightarrow> State \<Rightarrow> Line list \<Rightarrow> stop + State" where
  "ingestLines writeToDisk MaxMemorySize s [] = Inr s"
| "ingestLines writeToDisk MaxMemorySize s (ln # lns) =
     (case ingestLine writeToDisk MaxMemorySize s ln of
        Inl e \<Rightarrow> Inl e
      | Inr s1 \<Rightarrow> ingestLines writeToDisk MaxMemorySize s1 lns)"

definition importDataFromFile :: "Input \<Rightarrow> 64 word \<Rightarrow> State \<Rightarrow> stop + State" where
  "importDataFromFile inp MaxMemorySize s =
     (let writeToDisk = (sizeBytes inp > MaxMemorySize) in
      case ingestLines writeToDisk MaxMemorySize s (lines inp) of
        Inl e \<Rightarrow> Inl e
      | Inr s1 \<Rightarrow>
          if writeToDisk then
            (if Len (tr s1) > 0 then
               (case writeMapToFile s1 MaxMemorySize of None \<Rightarrow> Inl Panic | Some s2 \<Rightarrow> Inr s2)
             else Inr s1)
          else Inr s1)"

text \<open>The package's variables when \<open>main\<close> starts, over the files \<open>fs\<close>.\<close>

definition initState :: "(string \<Rightarrow> byte list option) \<Rightarrow> State" where
  "initState fs =
     \<lparr>currentMapSize = 0, minKey = 0, maxKey = 0, setMinMaxKey = False, tr = New 32, files = fs\<rparr>"

section \<open>Properties of the record writer\<close>

text \<open>
  When encoding fails, in the words of the format: the row has more than 65535
  fields, or some field's name is longer than 255 bytes, or some field's value is a
  \<open>uint64\<close> above the signed 64-bit range or a value of no tagged type whose JSON
  serialization fails.
\<close>

fun valueFails :: "any \<Rightarrow> bool" where
  "valueFails (VUint64 x) = (uint x > 2 ^ 63 - 1)"
| "valueFails (VOther r) = (r = None)"
| "valueFails _ = False"

definition encodeFails :: "Item \<Rightarrow> bool" where
  "encodeFails it =
     (length (entries (Row it)) > 65535
      \<or> list_ex (\<lambda>kv. length (fst kv) > 255 \<or> valueFails (snd kv)) (entries (Row it)))"

text \<open>
  The sink takes every write: the buffered writer has not failed, the file is open
  and the device has no limit.
\<close>

definition sinkAccepts :: "Writer \<Rightarrow> bool" where
  "sinkAccepts w = (\<not> bwerr w \<and> \<not> fclosed w \<and> space w = None)"

lemma appendAny_error:
  "snd (appendAny dst v) = None \<longleftrightarrow> \<not> valueFails v"
  by (cases v) (auto split: option.splits)

lemma encodeFields_error:
  "snd (encodeFields dst kvs) = None
     \<longleftrightarrow> \<not> list_ex (\<lambda>kv. length (fst kv) > 255 \<or> valueFails (snd kv)) kvs"
proof (induction kvs arbitrary: dst)
  case Nil
  then show ?case by simp
next
  case (Cons kv kvs)
  obtain k v where kv: "kv = (k, v)" by (cases kv)
  show ?case
  proof (cases "length k > 255")
    case True
    then show ?thesis by (simp add: kv)
  next
    case False
    obtain d e where a: "appendAny ((dst @ [of_nat (length k)]) @ bytesOf k) v = (d, e)"
      by (cases "appendAny ((dst @ [of_nat (length k)]) @ bytesOf k) v")
    have e: "e = None \<longleftrightarrow> \<not> valueFails v"
      using appendAny_error[of "(dst @ [of_nat (length k)]) @ bytesOf k" v] a by simp
    show ?thesis
    proof (cases e)
      case None
      then show ?thesis using False a e Cons.IH[of d] by (simp add: kv)
    next
      case (Some x)
      then show ?thesis using False a e by (simp add: kv)
    qed
  qed
qed

lemma encodeItemInto_error:
  "snd (encodeItemInto dst it) = None \<longleftrightarrow> \<not> encodeFails it"
  by (simp add: encodeItemInto_def encodeFails_def Let_def encodeFields_error)

lemma fileWrite_counters:
  "BytesWritten (fst (fileWrite w p)) = BytesWritten w \<and> Records (fst (fileWrite w p)) = Records w"
  by (simp add: fileWrite_def split: option.splits)


lemma bwFlush_counters:
  "BytesWritten (fst (bwFlush w)) = BytesWritten w \<and> Records (fst (bwFlush w)) = Records w"
  using fileWrite_counters[of w "bwbuf w"]
  by (simp add: bwFlush_def Let_def case_prod_beta)

lemma bwDirect_counters:
  "BytesWritten (fst (bwDirect w p)) = BytesWritten w \<and> Records (fst (bwDirect w p)) = Records w"
  using fileWrite_counters[of w p]
  by (simp add: bwDirect_def Let_def case_prod_beta)

lemma bwWrite_counters:
  "BytesWritten (fst (bwWrite w p)) = BytesWritten w \<and> Records (fst (bwWrite w p)) = Records w"
proof -
  let ?w0 = "w\<lparr>bwbuf := bwbuf w @ take (bufsize w - length (bwbuf w)) p\<rparr>"
  let ?w1 = "fst (bwFlush ?w0)"
  have f: "BytesWritten ?w1 = BytesWritten w \<and> Records ?w1 = Records w"
    using bwFlush_counters[of ?w0] by simp
  have d: "BytesWritten (fst (bwDirect ?w1 q)) = BytesWritten w
             \<and> Records (fst (bwDirect ?w1 q)) = Records w" for q
    using bwDirect_counters[of ?w1 q] f by simp
  show ?thesis
    using f d bwDirect_counters[of w p]
    by (simp add: bwWrite_def Let_def case_prod_beta)
qed

lemma bwWrite_error: "snd (bwWrite w p) = Some e \<Longrightarrow> e = SinkError"
  by (auto simp: bwWrite_def bwDirect_def bwFlush_def Let_def case_prod_beta split: if_splits)

lemma bwWrite_accepts:
  assumes "sinkAccepts w"
  shows "snd (bwWrite w p) = None \<and> sinkAccepts (fst (bwWrite w p))"
  using assms
  by (auto simp: sinkAccepts_def bwWrite_def bwDirect_def bwFlush_def fileWrite_def Let_def
           split: if_splits)

lemma encode_error_not_sink: "snd (encodeItemInto dst it) \<noteq> Some SinkError"
proof -
  have a: "snd (appendAny d v) \<noteq> Some SinkError" for d v
    by (cases v) (auto split: option.splits)
  have f: "snd (encodeFields d kvs) \<noteq> Some SinkError" for d kvs
  proof (induction kvs arbitrary: d)
    case Nil
    then show ?case by simp
  next
    case (Cons kv kvs)
    obtain k v where kv: "kv = (k, v)" by (cases kv)
    obtain d' e where r: "appendAny ((d @ [of_nat (length k)]) @ bytesOf k) v = (d', e)"
      by (cases "appendAny ((d @ [of_nat (length k)]) @ bytesOf k) v")
    show ?case using a[of "(d @ [of_nat (length k)]) @ bytesOf k" v] r Cons.IH[of d']
      by (cases e) (simp_all add: kv)
  qed
  show ?thesis using f by (simp add: encodeItemInto_def Let_def)
qed

text \<open>
  Claim C8, as amended. \<open>WriteItem\<close> returns an error whenever encoding the item
  fails (an encode error, with the writer, its sink and its counters untouched), and
  otherwise only when a write to the sink fails; when the sink takes every write it
  returns an error exactly when encoding fails. On any error \<open>BytesWritten\<close> and
  \<open>Records\<close> are unchanged; on success \<open>BytesWritten\<close> grows by 4 plus the encoded
  length (in \<open>uint64\<close> arithmetic) and \<open>Records\<close> by 1.
\<close>

theorem WriteItem_error_and_counters:
  "(encodeFails it \<longrightarrow>
      (\<exists>e. e \<noteq> SinkError \<and> WriteItem w it = (w, Some e)))
   \<and> (\<not> encodeFails it \<longrightarrow>
        (snd (WriteItem w it) = None \<or> snd (WriteItem w it) = Some SinkError)
      \<and> (snd (WriteItem w it) = Some SinkError \<longrightarrow>
            BytesWritten (fst (WriteItem w it)) = BytesWritten w
          \<and> Records (fst (WriteItem w it)) = Records w)
      \<and> (snd (WriteItem w it) = None \<longrightarrow>
            BytesWritten (fst (WriteItem w it))
              = BytesWritten w + of_nat (4 + length (fst (encodeItemInto [] it)))
          \<and> Records (fst (WriteItem w it)) = Records w + 1)
      \<and> (sinkAccepts w \<longrightarrow> snd (WriteItem w it) = None))"
proof (intro conjI impI)
  assume f: "encodeFails it"
  obtain buf e where enc: "encodeItemInto [] it = (buf, e)" by (cases "encodeItemInto [] it")
  from f have "e \<noteq> None" using encodeItemInto_error[of "[]" it] enc by simp
  then obtain x where x: "e = Some x" by auto
  have "x \<noteq> SinkError" using encode_error_not_sink[of "[]" it] enc x by simp
  then show "\<exists>e. e \<noteq> SinkError \<and> WriteItem w it = (w, Some e)"
    by (simp add: WriteItem_def enc x)
next
  assume nf: "\<not> encodeFails it"
  obtain buf where enc: "encodeItemInto [] it = (buf, None)"
    using encodeItemInto_error[of "[]" it] nf by (cases "encodeItemInto [] it") simp
  obtain w1 e1 where u: "writeU32ToWriter w (of_nat (length buf)) = (w1, e1)"
    by (cases "writeU32ToWriter w (of_nat (length buf))")
  obtain w2 e2 where b: "bwWrite w1 buf = (w2, e2)" by (cases "bwWrite w1 buf")
  have c1: "BytesWritten w1 = BytesWritten w \<and> Records w1 = Records w"
    using bwWrite_counters[of w "appendU32 [] (of_nat (length buf))"] u
    by (simp add: writeU32ToWriter_def)
  have c2: "BytesWritten w2 = BytesWritten w1 \<and> Records w2 = Records w1"
    using bwWrite_counters[of w1 buf] b by simp
  have s1: "e1 = None \<or> e1 = Some SinkError"
    using bwWrite_error[of w "appendU32 [] (of_nat (length buf))"] u
    by (cases e1) (simp_all add: writeU32ToWriter_def)
  have s2: "e2 = None \<or> e2 = Some SinkError"
    using bwWrite_error[of w1 buf] b by (cases e2) simp_all
  have W: "WriteItem w it =
            (case e1 of Some e \<Rightarrow> (w1, Some e)
             | None \<Rightarrow> (case e2 of Some e \<Rightarrow> (w2, Some e)
                 | None \<Rightarrow> (w2\<lparr>BytesWritten := BytesWritten w2 + of_nat (4 + length buf),
                                Records := Records w2 + 1\<rparr>, None)))"
    by (simp add: WriteItem_def enc u b Let_def split: option.splits)
  show "snd (WriteItem w it) = None \<or> snd (WriteItem w it) = Some SinkError"
    using s1 s2 by (auto simp: W split: option.splits)
  show "BytesWritten (fst (WriteItem w it)) = BytesWritten w"
    if "snd (WriteItem w it) = Some SinkError"
    using that c1 c2 by (auto simp: W split: option.splits)
  show "Records (fst (WriteItem w it)) = Records w"
    if "snd (WriteItem w it) = Some SinkError"
    using that c1 c2 by (auto simp: W split: option.splits)
  show "BytesWritten (fst (WriteItem w it))
          = BytesWritten w + of_nat (4 + length (fst (encodeItemInto [] it)))"
    if "snd (WriteItem w it) = None"
    using that c1 c2 by (auto simp: W enc split: option.splits)
  show "Records (fst (WriteItem w it)) = Records w + 1"
    if "snd (WriteItem w it) = None"
    using that c1 c2 by (auto simp: W split: option.splits)
  show "snd (WriteItem w it) = None" if a: "sinkAccepts w"
  proof -
    have "e1 = None \<and> sinkAccepts w1"
      using bwWrite_accepts[OF a, of "appendU32 [] (of_nat (length buf))"] u
      by (simp add: writeU32ToWriter_def)
    moreover from this have "e2 = None" using bwWrite_accepts[of w1 buf] b by simp
    ultimately show ?thesis by (simp add: W)
  qed
qed

text \<open>
  The theorem at a fresh writer, for a record that encodes and for one whose value
  cannot be serialized.
\<close>

theorem WriteItem_error_and_counters_witness:
  "\<not> encodeFails (Item 42 (Some [(''active'', VBool True)]))
   \<and> sinkAccepts (NewWriter None)
   \<and> snd (WriteItem (NewWriter None) (Item 42 (Some [(''active'', VBool True)]))) = None
   \<and> BytesWritten (fst (WriteItem (NewWriter None) (Item 42 (Some [(''active'', VBool True)])))) = 19
   \<and> Records (fst (WriteItem (NewWriter None) (Item 42 (Some [(''active'', VBool True)])))) = 1
   \<and> encodeFails (Item 7 (Some [(''ch'', VOther None)]))
   \<and> (\<exists>e. e \<noteq> SinkError
          \<and> WriteItem (NewWriter None) (Item 7 (Some [(''ch'', VOther None)]))
              = (NewWriter None, Some e))"
proof -
  have a: "\<not> encodeFails (Item 42 (Some [(''active'', VBool True)]))"
    by (simp add: encodeFails_def entries_def)
  have b: "sinkAccepts (NewWriter None)"
    by (simp add: sinkAccepts_def NewWriter_def)
  have c: "encodeFails (Item 7 (Some [(''ch'', VOther None)]))"
    by (simp add: encodeFails_def entries_def)
  have l: "length (fst (encodeItemInto [] (Item 42 (Some [(''active'', VBool True)])))) = 15"
    by (simp add: encodeItemInto_def entries_def appendU32_def appendU16_def bytesOf_def Let_def)
  have n: "BytesWritten (NewWriter None) = 0" "Records (NewWriter None) = 0"
    by (simp_all add: NewWriter_def)
  show ?thesis
    using a b c l n
      WriteItem_error_and_counters[of "Item 42 (Some [(''active'', VBool True)])" "NewWriter None"]
      WriteItem_error_and_counters[of "Item 7 (Some [(''ch'', VOther None)])" "NewWriter None"]
    by simp
qed

text \<open>
  Claim C8 as first stated fails: on a device with no room left, a record of more
  than 16 MiB encodes without error, yet \<open>WriteItem\<close> returns the sink's error.
\<close>

theorem WriteItem_error_counterexample:
  "snd (WriteItem (NewWriter (Some 0)) (Item 1 (Some [(''a'', VBytes (replicate 16777216 0))])))
     = Some SinkError
   \<and> \<not> encodeFails (Item 1 (Some [(''a'', VBytes (replicate 16777216 0))]))"
  by (simp add: WriteItem_def NewWriter_def encodeItemInto_def entries_def
      appendU32_def appendU16_def bytesOf_def tagBytes_def encodeFails_def Let_def
      writeU32ToWriter_def bwWrite_def bwFlush_def bwDirect_def fileWrite_def)

text \<open>
  What the JSON decoder stores in an \<open>any\<close> after \<open>UseNumber\<close>, by the standard
  library's documentation: nil, a \<open>bool\<close>, a \<open>json.Number\<close>, a \<open>string\<close>, a
  \<open>[]any\<close> or a \<open>map[string]any\<close>. The last two have no case of their own in
  \<open>appendAny\<close>: they are values of another type, \<open>VOther\<close>.
\<close>

fun decoderValue :: "any \<Rightarrow> bool" where
  "decoderValue VNil = True"
| "decoderValue (VBool x) = True"
| "decoderValue (VNumber x) = True"
| "decoderValue (VString x) = True"
| "decoderValue (VOther r) = True"
| "decoderValue _ = False"

text \<open>
  Claim C10. A \<open>json.Number\<close> whose \<open>Int64\<close> conversion fails is written with the
  string tag 4, a \<open>u32\<close> length and its text. A value that comes from the JSON
  decoder is never written with the float tag 3: its tag is 0, 1, 2, 4 or 6, or
  nothing is appended and an error is returned.
\<close>

theorem appendAny_number_not_float:
  "(parseInt64 x = None \<longrightarrow>
      appendAny dst (VNumber x)
        = ((dst @ [tagString]) @ appendU32 [] (of_nat (length x)) @ bytesOf x, None))
   \<and> (decoderValue v \<longrightarrow>
        (case appendAny dst v of
           (dst', Some e) \<Rightarrow> dst' = dst
         | (dst', None) \<Rightarrow>
             length dst < length dst' \<and> take (length dst) dst' = dst
             \<and> dst' ! length dst \<noteq> tagFloat
             \<and> dst' ! length dst \<in> {tagNil, tagBool, tagInt64, tagString, tagJSON}))"
proof (intro conjI impI)
  assume "parseInt64 x = None"
  then show "appendAny dst (VNumber x)
        = ((dst @ [tagString]) @ appendU32 [] (of_nat (length x)) @ bytesOf x, None)"
    by (simp add: appendU32_def)
next
  assume "decoderValue v"
  then show "case appendAny dst v of
           (dst', Some e) \<Rightarrow> dst' = dst
         | (dst', None) \<Rightarrow>
             length dst < length dst' \<and> take (length dst) dst' = dst
             \<and> dst' ! length dst \<noteq> tagFloat
             \<and> dst' ! length dst \<in> {tagNil, tagBool, tagInt64, tagString, tagJSON}"
    by (cases v)
       (auto simp: appendU32_def appendI64_def nth_append tagNil_def tagBool_def tagInt64_def
          tagString_def tagJSON_def tagFloat_def split: option.splits)
qed

text \<open>The theorem at the numbers \<open>3.5\<close> and \<open>17\<close>.\<close>

theorem appendAny_number_not_float_witness:
  "parseInt64 ''3.5'' = None
   \<and> decoderValue (VNumber ''3.5'')
   \<and> appendAny [] (VNumber ''3.5'') = ([4, 3, 0, 0, 0, 51, 46, 53], None)
   \<and> decoderValue (VNumber ''17'')
   \<and> fst (appendAny [] (VNumber ''17'')) ! 0 \<noteq> tagFloat"
proof -
  have p: "parseInt64 ''3.5'' = None"
    by (simp add: parseInt64_def parseUnsigned_def isDigit_def)
  have q: "parseInt64 ''17'' = Some 17"
    by (simp add: parseInt64_def parseUnsigned_def isDigit_def digitsValue_def)
  show ?thesis
    using p appendAny_number_not_float[of "''3.5''" "[]" "VNumber ''3.5''"]
      appendAny_number_not_float[of "''17''" "[]" "VNumber ''17''"]
    by (simp add: q appendU32_def bytesOf_def tagString_def tagFloat_def tagInt64_def appendI64_def)
qed

section \<open>The B-tree: abstraction and invariants\<close>

subsection \<open>Binary search on a sorted slice\<close>

lemma Search_loop_bounds:
  assumes "\<forall>a b. a \<le> b \<and> b < n \<and> f a \<longrightarrow> f b"
    and "i \<le> j" and "j \<le> n"
    and "\<forall>k<i. \<not> f k" and "\<forall>k. j \<le> k \<and> k < n \<longrightarrow> f k"
  shows "i \<le> Search_loop i j f \<and> Search_loop i j f \<le> j
         \<and> (\<forall>k<Search_loop i j f. \<not> f k)
         \<and> (\<forall>k. Search_loop i j f \<le> k \<and> k < n \<longrightarrow> f k)"
  using assms
proof (induction i j f rule: Search_loop.induct)
  case (1 i j f)
  show ?case
  proof (cases "i < j")
    case False
    then have "Search_loop i j f = i" by (subst Search_loop.simps) simp
    then show ?thesis using "1.prems" False by simp
  next
    case True
    define h where "h = (i + j) div 2"
    have h: "i \<le> h" "h < j" using True by (simp_all add: h_def)
    show ?thesis
    proof (cases "f h")
      case False
      have lo: "\<forall>k<h + 1. \<not> f k"
      proof (intro allI impI)
        fix k assume "k < h + 1"
        then have "k \<le> h \<and> h < n" using h "1.prems"(3) by simp
        then show "\<not> f k" using False "1.prems"(1) by blast
      qed
      have s: "Search_loop i j f = Search_loop (h + 1) j f"
        using True False by (simp add: Search_loop.simps[of i j f] h_def Let_def)
      have "h + 1 \<le> Search_loop (h + 1) j f \<and> Search_loop (h + 1) j f \<le> j
         \<and> (\<forall>k<Search_loop (h + 1) j f. \<not> f k)
         \<and> (\<forall>k. Search_loop (h + 1) j f \<le> k \<and> k < n \<longrightarrow> f k)"
      proof -
        have "h + 1 \<le> j" using h by simp
        from "1.IH"(1)[OF True h_def False "1.prems"(1) this "1.prems"(3) lo "1.prems"(5)]
        show ?thesis .
      qed
      then show ?thesis using h by (simp add: s)
    next
      case fh: True
      have hi: "\<forall>k. h \<le> k \<and> k < n \<longrightarrow> f k"
        using fh "1.prems"(1) by blast
      have s: "Search_loop i j f = Search_loop i h f"
        using True fh by (simp add: Search_loop.simps[of i j f] h_def Let_def)
      have "i \<le> Search_loop i h f \<and> Search_loop i h f \<le> h
         \<and> (\<forall>k<Search_loop i h f. \<not> f k)
         \<and> (\<forall>k. Search_loop i h f \<le> k \<and> k < n \<longrightarrow> f k)"
      proof -
        have nn: "\<not> \<not> f h" using fh by simp
        have "h \<le> n" using h "1.prems"(3) by simp
        from "1.IH"(2)[OF True h_def nn "1.prems"(1) h(1) this "1.prems"(4) hi]
        show ?thesis .
      qed
      then show ?thesis using h by (simp add: s)
    qed
  qed
qed

lemma Search_sorted:
  assumes "sorted_wrt (<) (map PK its)"
  shows "Search (length its) (\<lambda>j. PK (its ! j) \<ge> k) \<le> length its"
    and "\<forall>j<Search (length its) (\<lambda>j. PK (its ! j) \<ge> k). PK (its ! j) < k"
    and "\<forall>j. Search (length its) (\<lambda>j. PK (its ! j) \<ge> k) \<le> j \<and> j < length its
              \<longrightarrow> k \<le> PK (its ! j)"
proof -
  let ?f = "\<lambda>j. PK (its ! j) \<ge> k"
  have mono: "\<forall>a b. a \<le> b \<and> b < length its \<and> ?f a \<longrightarrow> ?f b"
  proof (intro allI impI)
    fix a b assume ab: "a \<le> b \<and> b < length its \<and> ?f a"
    show "?f b"
    proof (cases "a = b")
      case True
      then show ?thesis using ab by simp
    next
      case False
      then have "a < b" using ab by simp
      then have "map PK its ! a < map PK its ! b"
        using assms ab by (simp add: sorted_wrt_iff_nth_less)
      then show ?thesis using ab by simp
    qed
  qed
  define r where "r = Search_loop 0 (length its) ?f"
  have "0 \<le> Search_loop 0 (length its) ?f \<and> Search_loop 0 (length its) ?f \<le> length its
         \<and> (\<forall>j<Search_loop 0 (length its) ?f. \<not> ?f j)
         \<and> (\<forall>j. Search_loop 0 (length its) ?f \<le> j \<and> j < length its \<longrightarrow> ?f j)"
    by (rule Search_loop_bounds[OF mono]) simp_all
  then have r1: "r \<le> length its" and r2: "\<forall>j<r. \<not> ?f j"
    and r3: "\<forall>j. r \<le> j \<and> j < length its \<longrightarrow> ?f j"
    unfolding r_def[symmetric] by blast+
  have S: "Search (length its) ?f = r" by (simp only: Search_def r_def)
  show "Search (length its) ?f \<le> length its" unfolding S by (rule r1)
  show "\<forall>j<Search (length its) ?f. PK (its ! j) < k"
    unfolding S using r2 by (simp add: not_le)
  show "\<forall>j. Search (length its) ?f \<le> j \<and> j < length its \<longrightarrow> k \<le> PK (its ! j)"
    unfolding S using r3 by simp
qed

subsection \<open>Insertion into a list sorted by key\<close>

text \<open>
  The list of a tree's items in ascending order stands for the tree's content.
  \<open>upsertList\<close> is what an upsert does to it: the item takes the place of the
  item with its key, or its place in the order.
\<close>

fun upsertList :: "Item \<Rightarrow> Item list \<Rightarrow> Item list" where
  "upsertList it [] = [it]"
| "upsertList it (x # xs) =
     (if PK it < PK x then it # x # xs
      else if PK it = PK x then it # xs
      else x # upsertList it xs)"

text \<open>The item stored under a key.\<close>

definition stored :: "int \<Rightarrow> Item list \<Rightarrow> Item option" where
  "stored k xs = find (\<lambda>x. PK x = k) xs"

abbreviation ascending :: "Item list \<Rightarrow> bool" where
  "ascending xs \<equiv> sorted_wrt (<) (map PK xs)"

lemma upsertList_above:
  "\<forall>a\<in>set A. PK a < PK it \<Longrightarrow> upsertList it (A @ B) = A @ upsertList it B"
  by (induction A) auto

lemma upsertList_below:
  "C = [] \<or> PK it < PK (hd C) \<Longrightarrow> upsertList it (B @ C) = upsertList it B @ C"
proof (induction B)
  case Nil
  then show ?case by (cases C) auto
next
  case (Cons b B)
  then show ?case by simp
qed

lemma upsertList_mid:
  assumes "\<forall>a\<in>set A. PK a < PK it" and "C = [] \<or> PK it < PK (hd C)"
  shows "upsertList it (A @ B @ C) = A @ upsertList it B @ C"
  using assms by (simp add: upsertList_above upsertList_below)

lemma upsertList_hit:
  assumes "\<forall>a\<in>set A. PK a < PK it" and "PK x = PK it"
  shows "upsertList it (A @ x # C) = A @ it # C"
  using assms by (simp add: upsertList_above)

lemma stored_above:
  "\<forall>a\<in>set A. PK a < k \<Longrightarrow> stored k (A @ B) = stored k B"
  by (induction A) (auto simp: stored_def)

lemma stored_below:
  "\<forall>c\<in>set C. k < PK c \<Longrightarrow> stored k (B @ C) = stored k B"
proof (induction B)
  case Nil
  then show ?case by (induction C) (auto simp: stored_def)
next
  case (Cons b B)
  then show ?case by (auto simp: stored_def)
qed

lemma stored_mid:
  assumes "\<forall>a\<in>set A. PK a < k" and "\<forall>c\<in>set C. k < PK c"
  shows "stored k (A @ B @ C) = stored k B"
  using assms by (simp add: stored_above stored_below)

lemma stored_hit:
  assumes "\<forall>a\<in>set A. PK a < k" and "PK x = k"
  shows "stored k (A @ x # C) = Some x"
  using assms by (simp add: stored_above) (simp add: stored_def)

lemma stored_None_iff: "stored k xs = None \<longleftrightarrow> k \<notin> PK ` set xs"
  by (auto simp: stored_def find_None_iff)

lemma stored_SomeD: "stored k xs = Some x \<Longrightarrow> x \<in> set xs \<and> PK x = k"
  by (auto simp: stored_def find_Some_iff)

lemma ascending_upsertList: "ascending xs \<Longrightarrow> ascending (upsertList it xs)"
proof (induction xs)
  case Nil
  then show ?case by simp
next
  case (Cons x xs)
  have s: "PK ` set (upsertList it xs) \<subseteq> insert (PK it) (PK ` set xs)"
    by (induction xs) auto
  from Cons show ?case using s by (auto simp: less_imp_le)
qed

lemma length_upsertList:
  "length (upsertList it xs) = (if stored (PK it) xs = None then length xs + 1 else length xs)"
  if "ascending xs"
  using that
proof (induction xs)
  case Nil
  then show ?case by (simp add: stored_def)
next
  case (Cons x xs)
  then show ?case by (auto simp: stored_def find_None_iff)
qed

subsection \<open>The items of a tree in order\<close>

text \<open>\<open>inter cs xs\<close> is \<open>c0, x0, c1, x1, ..., ck\<close>: children and items in turn.\<close>

fun inter :: "'a list list \<Rightarrow> 'a list \<Rightarrow> 'a list" where
  "inter (c # cs) (x # xs) = c @ x # inter cs xs"
| "inter (c # cs) [] = c"
| "inter [] xs = []"

fun inorder :: "node \<Rightarrow> Item list" where
  "inorder (Node lf its chs) = (if lf then its else inter (map inorder chs) its)"

text \<open>The part of \<open>inter\<close> before a child, and the part after it.\<close>

fun before :: "'a list list \<Rightarrow> 'a list \<Rightarrow> 'a list" where
  "before (c # cs) (x # xs) = c @ x # before cs xs"
| "before cs xs = []"

fun after :: "'a list \<Rightarrow> 'a list list \<Rightarrow> 'a list" where
  "after (x # xs) (c # cs) = x # c @ after xs cs"
| "after xs cs = []"

lemma inter_head:
  "length cs = length xs \<Longrightarrow> inter (c # cs) xs = c @ after xs cs"
  by (induction xs cs arbitrary: c rule: after.induct) auto

lemma inter_at:
  "length cs = length xs + 1 \<Longrightarrow> i \<le> length xs \<Longrightarrow>
   inter cs xs = before (take i cs) (take i xs) @ cs ! i @ after (drop i xs) (drop (Suc i) cs)"
proof (induction i arbitrary: cs xs)
  case 0
  then obtain c cs' where cs: "cs = c # cs'" by (cases cs) auto
  then show ?case using 0 by (simp add: inter_head)
next
  case (Suc i)
  then obtain c cs' where cs: "cs = c # cs'" by (cases cs) auto
  from Suc obtain x xs' where xs: "xs = x # xs'" by (cases xs) auto
  show ?case using Suc.IH[of cs' xs'] Suc.prems by (simp add: cs xs)
qed

lemma before_snoc:
  "length cs = length xs \<Longrightarrow> before (cs @ [c]) (xs @ [x]) = before cs xs @ c @ [x]"
  by (induction cs xs rule: before.induct) auto

lemma before_take_Suc:
  assumes "i < length xs" "i < length cs"
  shows "before (take (Suc i) cs) (take (Suc i) xs)
           = before (take i cs) (take i xs) @ cs ! i @ [xs ! i]"
proof -
  have "take (Suc i) cs = take i cs @ [cs ! i]" "take (Suc i) xs = take i xs @ [xs ! i]"
    using assms by (simp_all add: take_Suc_conv_app_nth)
  then show ?thesis using assms before_snoc[of "take i cs" "take i xs" "cs ! i" "xs ! i"]
    by simp
qed

lemma after_drop:
  assumes "i < length xs" "Suc i < length cs"
  shows "after (drop i xs) (drop (Suc i) cs)
           = xs ! i # cs ! Suc i @ after (drop (Suc i) xs) (drop (Suc (Suc i)) cs)"
proof -
  have "drop i xs = xs ! i # drop (Suc i) xs" "drop (Suc i) cs = cs ! Suc i # drop (Suc (Suc i)) cs"
    using assms by (simp_all add: Cons_nth_drop_Suc)
  then show ?thesis by simp
qed

lemma inter_cut:
  "length cs = length xs + 1 \<Longrightarrow> k < length xs \<Longrightarrow>
   inter cs xs = inter (take (Suc k) cs) (take k xs) @ xs ! k # inter (drop (Suc k) cs) (drop (Suc k) xs)"
proof (induction k arbitrary: cs xs)
  case 0
  then obtain c cs' where cs: "cs = c # cs'" by (cases cs) auto
  from 0 obtain x xs' where xs: "xs = x # xs'" by (cases xs) auto
  show ?case by (simp add: cs xs)
next
  case (Suc k)
  then obtain c cs' where cs: "cs = c # cs'" by (cases cs) auto
  from Suc obtain x xs' where xs: "xs = x # xs'" by (cases xs) auto
  show ?case using Suc.IH[of cs' xs'] Suc.prems by (simp add: cs xs)
qed

text \<open>Putting a median and the two halves of a child in the child's place.\<close>

lemma inter_split:
  assumes "length cs = length xs + 1" "i \<le> length xs" "cs ! i = a @ m # b"
  shows "inter (take i cs @ a # b # drop (Suc i) cs) (take i xs @ m # drop i xs) = inter cs xs"
proof -
  let ?cs = "take i cs @ a # b # drop (Suc i) cs" and ?xs = "take i xs @ m # drop i xs"
  have l: "length ?cs = length ?xs + 1" "i \<le> length ?xs" using assms by auto
  have t: "take i ?cs = take i cs" "take i ?xs = take i xs" "?cs ! i = a"
    using assms by (simp_all add: nth_append)
  have d: "drop i ?xs = m # drop i xs" "drop (Suc i) ?cs = b # drop (Suc i) cs"
    using assms by simp_all
  have "inter ?cs ?xs = before (take i cs) (take i xs) @ a @ m # b @ after (drop i xs) (drop (Suc i) cs)"
    using inter_at[OF l] unfolding t d by simp
  also have "\<dots> = inter cs xs"
    using inter_at[OF assms(1,2)] assms(3) by simp
  finally show ?thesis .
qed

text \<open>
  The window of a key that is not among a node's items: with \<open>i\<close> the index the
  search returns, everything before child \<open>i\<close> is below the key and everything
  after it is above.
\<close>

lemma before_below:
  assumes "length cs = length xs + 1" "i \<le> length xs"
    and "ascending (inter cs xs)" and "\<forall>j<i. PK (xs ! j) < k"
  shows "\<forall>a\<in>set (before (take i cs) (take i xs)). PK a < k"
proof (cases i)
  case 0
  then show ?thesis by simp
next
  case (Suc j)
  have j: "j < length xs" "j < length cs" using Suc assms by simp_all
  have b: "before (take i cs) (take i xs) = (before (take j cs) (take j xs) @ cs ! j) @ [xs ! j]"
    using before_take_Suc[OF j] Suc by simp
  have "ascending (before (take i cs) (take i xs))"
    using assms(3) inter_at[OF assms(1,2)] by (simp add: sorted_wrt_append)
  then have "\<forall>a\<in>set (before (take j cs) (take j xs) @ cs ! j). PK a < PK (xs ! j)"
    unfolding b by (auto simp: sorted_wrt_append)
  moreover have "PK (xs ! j) < k" using assms(4) Suc by simp
  ultimately show ?thesis unfolding b by (force simp: ball_Un)
qed

lemma after_above:
  assumes "length cs = length xs + 1" "i \<le> length xs"
    and "ascending (inter cs xs)" and "\<forall>j. i \<le> j \<and> j < length xs \<longrightarrow> k < PK (xs ! j)"
  shows "\<forall>c\<in>set (after (drop i xs) (drop (Suc i) cs)). k < PK c"
proof (cases "i < length xs")
  case False
  then show ?thesis using assms by simp
next
  case True
  have a: "after (drop i xs) (drop (Suc i) cs)
             = xs ! i # cs ! Suc i @ after (drop (Suc i) xs) (drop (Suc (Suc i)) cs)"
    using after_drop[of i xs cs] True assms(1) by simp
  have "ascending (after (drop i xs) (drop (Suc i) cs))"
    using assms(3) inter_at[OF assms(1,2)] by (simp add: sorted_wrt_append)
  then have "\<forall>c\<in>set (cs ! Suc i @ after (drop (Suc i) xs) (drop (Suc (Suc i)) cs)).
               PK (xs ! i) < PK c"
    unfolding a by auto
  moreover have "k < PK (xs ! i)" using assms(4) True by simp
  ultimately show ?thesis unfolding a by (force simp: ball_Un)
qed

lemma inter_update_child:
  assumes "length cs = length xs + 1" "i \<le> length xs"
  shows "inter (cs[i := c']) xs
           = before (take i cs) (take i xs) @ c' @ after (drop i xs) (drop (Suc i) cs)"
  using inter_at[of "cs[i := c']" xs i] assms by simp

lemma inter_update_item:
  assumes "length cs = length xs + 1" "i < length xs"
  shows "inter cs xs = (before (take i cs) (take i xs) @ cs ! i) @ xs ! i
                         # cs ! Suc i @ after (drop (Suc i) xs) (drop (Suc (Suc i)) cs)"
    and "inter cs (xs[i := y]) = (before (take i cs) (take i xs) @ cs ! i) @ y
                         # cs ! Suc i @ after (drop (Suc i) xs) (drop (Suc (Suc i)) cs)"
proof -
  show "inter cs xs = (before (take i cs) (take i xs) @ cs ! i) @ xs ! i
                         # cs ! Suc i @ after (drop (Suc i) xs) (drop (Suc (Suc i)) cs)"
    using inter_at[of cs xs i] after_drop[of i xs cs] assms by simp
  have "drop i (xs[i := y]) = y # drop (Suc i) xs"
    using assms by (simp add: Cons_nth_drop_Suc[symmetric])
  then show "inter cs (xs[i := y]) = (before (take i cs) (take i xs) @ cs ! i) @ y
                         # cs ! Suc i @ after (drop (Suc i) xs) (drop (Suc (Suc i)) cs)"
    using inter_at[of cs "xs[i := y]" i] assms
    by (simp add: Cons_nth_drop_Suc[symmetric])
qed

subsection \<open>The shape of a B-tree\<close>

text \<open>
  \<open>shape t r h n\<close>: below \<open>n\<close> every node has at most \<open>2t - 1\<close> items, every node
  but \<open>n\<close> itself when it is the root (\<open>r\<close>) has at least \<open>t - 1\<close>, an internal node
  with \<open>k\<close> items has \<open>k + 1\<close> children (an internal root has an item), a leaf has no
  children, and every leaf is \<open>h\<close> levels below \<open>n\<close>.
\<close>

fun shape :: "nat \<Rightarrow> bool \<Rightarrow> nat \<Rightarrow> node \<Rightarrow> bool" where
  "shape t r h (Node lf its chs) =
     (length its \<le> 2 * t - 1
      \<and> (r \<longrightarrow> lf \<or> 1 \<le> length its)
      \<and> (\<not> r \<longrightarrow> t - 1 \<le> length its)
      \<and> (lf \<longrightarrow> h = 0 \<and> chs = [])
      \<and> (\<not> lf \<longrightarrow> 0 < h \<and> length chs = length its + 1
                   \<and> (\<forall>c\<in>set chs. shape t False (h - 1) c)))"

lemma shape_root_to_inner:
  "shape t True h n \<Longrightarrow> t - 1 \<le> length (items n) \<Longrightarrow> shape t False h n"
  by (cases n) auto

lemma shape_inner_to_root:
  "shape t False h n \<Longrightarrow> 2 \<le> t \<Longrightarrow> shape t True h n"
  by (cases n) auto

lemma set_items_inter:
  "length cs = length xs + 1 \<Longrightarrow> set xs \<subseteq> set (inter cs xs)"
  by (induction cs xs rule: inter.induct) auto

lemma ascending_items_inter:
  "length cs = length xs + 1 \<Longrightarrow> ascending (inter cs xs) \<Longrightarrow> ascending xs"
proof (induction cs xs rule: inter.induct)
  case (1 c cs x xs)
  then have l: "length cs = length xs + 1" by simp
  from "1.prems"(2) have a: "ascending (x # inter cs xs)"
    by (simp add: sorted_wrt_append)
  then have "ascending xs" using "1.IH"[OF l] by simp
  moreover have "\<forall>y\<in>set xs. PK x < PK y"
    using a set_items_inter[OF l] by auto
  ultimately show ?case by simp
qed simp_all

lemma ascending_items:
  "shape t r h n \<Longrightarrow> ascending (inorder n) \<Longrightarrow> ascending (items n)"
proof -
  assume s: "shape t r h n" and a: "ascending (inorder n)"
  obtain lf its chs where n: "n = Node lf its chs" by (cases n)
  show ?thesis
  proof (cases lf)
    case True
    then show ?thesis using a by (simp add: n)
  next
    case False
    then have "length (map inorder chs) = length its + 1" using s by (simp add: n)
    from ascending_items_inter[OF this] a False show ?thesis by (simp add: n)
  qed
qed

text \<open>When the search does not find the key, the items from its index on are above.\<close>

lemma Search_miss:
  assumes "ascending its"
    and "i = Search (length its) (\<lambda>j. PK (its ! j) \<ge> k)"
    and "\<not> (i < length its \<and> PK (its ! i) = k)"
  shows "\<forall>j. i \<le> j \<and> j < length its \<longrightarrow> k < PK (its ! j)"
proof (intro allI impI)
  fix j assume j: "i \<le> j \<and> j < length its"
  then have i: "i < length its" by simp
  have "k \<le> PK (its ! i)" using Search_sorted(3)[OF assms(1), of k] assms(2) i by simp
  then have ki: "k < PK (its ! i)" using assms(3) i by simp
  show "k < PK (its ! j)"
  proof (cases "i = j")
    case True
    then show ?thesis using ki by simp
  next
    case False
    then have "i < j" using j by simp
    then have "map PK its ! i < map PK its ! j"
      using assms(1) j by (simp add: sorted_wrt_iff_nth_less)
    then show ?thesis using ki j i by simp
  qed
qed

subsection \<open>Insertion into a leaf\<close>

lemma leaf_insert:
  assumes "i \<le> length its" "\<forall>j<i. PK (its ! j) < PK it"
    and "\<forall>j. i \<le> j \<and> j < length its \<longrightarrow> PK it < PK (its ! j)"
  shows "take i its @ it # drop i its = upsertList it its"
    and "stored (PK it) its = None"
proof -
  have A: "\<forall>a\<in>set (take i its). PK a < PK it"
    using assms(1,2) by (auto simp: in_set_conv_nth)
  have C: "\<forall>c\<in>set (drop i its). PK it < PK c"
    using assms(1,3) by (auto simp: in_set_conv_nth)
  have "upsertList it (drop i its) = it # drop i its"
    using C by (cases "drop i its") auto
  then have "upsertList it (take i its @ drop i its) = take i its @ it # drop i its"
    using upsertList_above[OF A, of "drop i its"] by simp
  then show "take i its @ it # drop i its = upsertList it its" by simp
  have "set its = set (take i its) \<union> set (drop i its)"
    by (metis append_take_drop_id set_append)
  then have "PK it \<notin> PK ` set its" using A C by force
  then show "stored (PK it) its = None" by (simp add: stored_None_iff)
qed

lemma leaf_replace:
  assumes "i < length its" "\<forall>j<i. PK (its ! j) < PK it" "PK (its ! i) = PK it"
  shows "its[i := it] = upsertList it its"
    and "stored (PK it) its = Some (its ! i)"
proof -
  have A: "\<forall>a\<in>set (take i its). PK a < PK it"
    using assms(1,2) by (auto simp: in_set_conv_nth)
  have its: "its = take i its @ its ! i # drop (Suc i) its"
    using assms(1) by (simp add: id_take_nth_drop[symmetric])
  have "upsertList it (take i its @ its ! i # drop (Suc i) its) = take i its @ it # drop (Suc i) its"
    using upsertList_hit[OF A assms(3)] .
  then show "its[i := it] = upsertList it its"
    using its assms(1) by (simp add: upd_conv_take_nth_drop)
  have "stored (PK it) (take i its @ its ! i # drop (Suc i) its) = Some (its ! i)"
    using stored_hit[OF A assms(3)] .
  then show "stored (PK it) its = Some (its ! i)" using its by simp
qed

subsection \<open>Splitting a full child\<close>

lemma splitChild_spec:
  assumes "length chs = length its + 1" "i \<le> length its" "1 \<le> t"
    and "shape t False h (chs ! i)" "length (items (chs ! i)) = 2 * t - 1"
  shows "\<exists>y' z m.
           splitChild t (Node lf its chs) i
             = Some (Node lf (take i its @ m # drop i its)
                       (take i chs @ y' # z # drop (Suc i) chs))
           \<and> shape t False h y' \<and> shape t False h z
           \<and> length (items y') = t - 1 \<and> length (items z) = t - 1
           \<and> inorder (chs ! i) = inorder y' @ m # inorder z"
proof -
  obtain ylf yits ychs where y: "chs ! i = Node ylf yits ychs" by (cases "chs ! i")
  have ly: "length yits = 2 * t - 1" using assms(5) y by simp
  have t1: "t - 1 < length yits" "t \<le> length yits" using ly assms(3) by simp_all
  have lc: "\<not> ylf \<Longrightarrow> length ychs = 2 * t" using assms(3,4) ly y by simp
  have lf: "ylf \<Longrightarrow> ychs = []" using assms(4) y by simp
  define m where "m = yits ! (t - 1)"
  define z where "z = Node ylf (drop t yits) (if ylf then [] else drop t ychs)"
  define y' where "y' = Node ylf (take (t - 1) yits) (if ylf then ychs else take t ychs)"
  have sp: "splitChild t (Node lf its chs) i
             = Some (Node lf (take i its @ m # drop i its)
                       (take i chs @ y' # z # drop (Suc i) chs))"
    using assms(1,2,3) t1 lc
    by (auto simp: splitChild_def y Let_def m_def z_def y'_def)
  have ch: "\<not> ylf \<Longrightarrow> \<forall>c\<in>set ychs. shape t False (h - 1) c" using assms(4) y by simp
  have hh: "if ylf then h = 0 else 0 < h" using assms(4) y by (simp split: if_splits)
  have sy: "shape t False h y'"
    using ly lc lf ch hh assms(3) by (auto simp: y'_def dest: in_set_takeD)
  have sz: "shape t False h z"
    using ly lc lf ch hh assms(3) by (auto simp: z_def dest: in_set_dropD)
  have io: "inorder (chs ! i) = inorder y' @ m # inorder z"
  proof (cases ylf)
    case True
    have "yits = take (t - 1) yits @ yits ! (t - 1) # drop (Suc (t - 1)) yits"
      using t1 by (simp add: id_take_nth_drop[symmetric])
    then show ?thesis using True assms(3) by (simp add: y y'_def z_def m_def)
  next
    case False
    have "length (map inorder ychs) = length yits + 1" using lc[OF False] ly assms(3) by simp
    from inter_cut[OF this t1(1)] assms(3)
    have "inter (map inorder ychs) yits
            = inter (take t (map inorder ychs)) (take (t - 1) yits)
                @ yits ! (t - 1) # inter (drop t (map inorder ychs)) (drop t yits)"
      by simp
    then show ?thesis using False by (simp add: y y'_def z_def m_def take_map drop_map)
  qed
  show ?thesis using sp sy sz io ly assms(3) by (auto simp: y'_def z_def)
qed

subsection \<open>\<open>insertNonFull\<close> on a node that is not full\<close>

text \<open>What \<open>Upsert\<close> returns as the old item: the stored one, or the zero value.\<close>

definition prev :: "int \<Rightarrow> Item list \<Rightarrow> Item" where
  "prev k xs = (case stored k xs of None \<Rightarrow> zeroItem | Some x \<Rightarrow> x)"

lemma node_window:
  assumes "length chs = length its + 1" "j \<le> length its"
    and "ascending (inorder (Node False its chs))"
    and "\<forall>a<j. PK (its ! a) < PK it"
    and "\<forall>a. j \<le> a \<and> a < length its \<longrightarrow> PK it < PK (its ! a)"
  shows "stored (PK it) (inorder (Node False its chs)) = stored (PK it) (inorder (chs ! j))"
    and "ascending (inorder (chs ! j))"
    and "inorder c' = upsertList it (inorder (chs ! j)) \<Longrightarrow>
         inorder (Node False its (chs[j := c'])) = upsertList it (inorder (Node False its chs))"
proof -
  let ?cs = "map inorder chs"
  let ?A = "before (take j ?cs) (take j its)" and ?C = "after (drop j its) (drop (Suc j) ?cs)"
  have l: "length ?cs = length its + 1" using assms(1) by simp
  have asc: "ascending (inter ?cs its)" using assms(3) by simp
  have jc: "j < length chs" using assms(1,2) by simp
  have dec: "inter ?cs its = ?A @ inorder (chs ! j) @ ?C"
    using inter_at[OF l assms(2)] jc by simp
  have A: "\<forall>a\<in>set ?A. PK a < PK it" by (rule before_below[OF l assms(2) asc assms(4)])
  have C: "\<forall>c\<in>set ?C. PK it < PK c" by (rule after_above[OF l assms(2) asc assms(5)])
  show "stored (PK it) (inorder (Node False its chs)) = stored (PK it) (inorder (chs ! j))"
    using stored_mid[OF A C] dec by simp
  show "ascending (inorder (chs ! j))"
    using asc unfolding dec by (simp add: sorted_wrt_append)
  assume c': "inorder c' = upsertList it (inorder (chs ! j))"
  have C': "?C = [] \<or> PK it < PK (hd ?C)" using C by (cases ?C) auto
  have "inter (map inorder (chs[j := c'])) its = ?A @ inorder c' @ ?C"
    using inter_update_child[OF l assms(2), of "inorder c'"] by (simp add: map_update)
  also have "\<dots> = upsertList it (?A @ inorder (chs ! j) @ ?C)"
    using upsertList_mid[OF A C'] c' by simp
  finally show "inorder (Node False its (chs[j := c'])) = upsertList it (inorder (Node False its chs))"
    using dec by simp
qed

lemma node_hit:
  assumes "length chs = length its + 1" "j < length its"
    and "ascending (inorder (Node False its chs))" and "PK (its ! j) = PK it"
  shows "inorder (Node False (its[j := it]) chs) = upsertList it (inorder (Node False its chs))"
    and "stored (PK it) (inorder (Node False its chs)) = Some (its ! j)"
proof -
  let ?cs = "map inorder chs"
  let ?A = "before (take j ?cs) (take j its) @ ?cs ! j"
  let ?R = "?cs ! Suc j @ after (drop (Suc j) its) (drop (Suc (Suc j)) ?cs)"
  have l: "length ?cs = length its + 1" using assms(1) by simp
  have d1: "inter ?cs its = ?A @ its ! j # ?R"
    and d2: "inter ?cs (its[j := it]) = ?A @ it # ?R"
    using inter_update_item[OF l assms(2)] by blast+
  have "ascending (?A @ its ! j # ?R)" using assms(3) d1 by simp
  then have A: "\<forall>a\<in>set ?A. PK a < PK it"
    using assms(4) by (auto simp: sorted_wrt_append)
  show "inorder (Node False (its[j := it]) chs) = upsertList it (inorder (Node False its chs))"
    using upsertList_hit[OF A assms(4)] d1 d2 by simp
  show "stored (PK it) (inorder (Node False its chs)) = Some (its ! j)"
    using stored_hit[OF A assms(4)] d1 by simp
qed

lemma insertNonFull_leaf:
  assumes "shape t r h (Node True its chs)" "length its < 2 * t - 1" "ascending its"
  shows "\<exists>n'. insertNonFull t (Node True its chs) it
                 = Some (n', prev (PK it) its, stored (PK it) its \<noteq> None)
              \<and> shape t r h n' \<and> inorder n' = upsertList it its"
proof -
  define i where "i = Search (length its) (\<lambda>j. PK (its ! j) \<ge> PK it)"
  have i: "i \<le> length its" and lo: "\<forall>j<i. PK (its ! j) < PK it"
    using Search_sorted(1,2)[OF assms(3), of "PK it"] by (simp_all add: i_def)
  show ?thesis
  proof (cases "i < length its \<and> PK (its ! i) = PK it")
    case True
    have r: "insertNonFull t (Node True its chs) it
               = Some (Node True (its[i := it]) chs, its ! i, True)"
      using True by (simp add: insertNonFull.simps[of t "Node True its chs" it] i_def Let_def)
    have s: "shape t r h (Node True (its[i := it]) chs)"
      using assms(1) by (auto split: if_splits)
    have "its[i := it] = upsertList it its" "stored (PK it) its = Some (its ! i)"
      using leaf_replace[of i its it] True lo by simp_all
    then show ?thesis using r s by (simp add: prev_def del: shape.simps)
  next
    case False
    have r: "insertNonFull t (Node True its chs) it
               = Some (Node True (take i its @ it # drop i its) chs, zeroItem, False)"
      using False by (auto simp: insertNonFull.simps[of t "Node True its chs" it] i_def Let_def)
    have hi: "\<forall>j. i \<le> j \<and> j < length its \<longrightarrow> PK it < PK (its ! j)"
      using Search_miss[OF assms(3) i_def False] .
    have s: "shape t r h (Node True (take i its @ it # drop i its) chs)"
      using assms(1,2) i by (auto split: if_splits)
    have "take i its @ it # drop i its = upsertList it its" "stored (PK it) its = None"
      using leaf_insert[OF i lo hi] by simp_all
    then show ?thesis using r s by (simp add: prev_def del: shape.simps)
  qed
qed

text \<open>Going down into child \<open>j\<close>, whose window holds the key.\<close>

lemma node_descend:
  assumes sh: "shape t r (Suc h) (Node False its chs)" and j: "j \<le> length its"
    and asc: "ascending (inorder (Node False its chs))"
    and lo: "\<forall>a<j. PK (its ! a) < PK it"
    and hi: "\<forall>a. j \<le> a \<and> a < length its \<longrightarrow> PK it < PK (its ! a)"
    and ch: "\<exists>c'. insertNonFull t (chs ! j) it
                    = Some (c', prev (PK it) (inorder (chs ! j)),
                            stored (PK it) (inorder (chs ! j)) \<noteq> None)
                  \<and> shape t False h c' \<and> inorder c' = upsertList it (inorder (chs ! j))"
  shows "\<exists>n'. (case insertNonFull t (chs ! j) it of
                 None \<Rightarrow> None
               | Some (c', old, replaced) \<Rightarrow> Some (Node False its (chs[j := c']), old, replaced))
              = Some (n', prev (PK it) (inorder (Node False its chs)),
                      stored (PK it) (inorder (Node False its chs)) \<noteq> None)
            \<and> shape t r (Suc h) n'
            \<and> inorder n' = upsertList it (inorder (Node False its chs))"
proof -
  have len: "length chs = length its + 1" using sh by simp
  from ch obtain c' where c': "insertNonFull t (chs ! j) it
                    = Some (c', prev (PK it) (inorder (chs ! j)),
                            stored (PK it) (inorder (chs ! j)) \<noteq> None)"
    and sc: "shape t False h c'" and ic: "inorder c' = upsertList it (inorder (chs ! j))"
    by blast
  have st: "stored (PK it) (inorder (Node False its chs)) = stored (PK it) (inorder (chs ! j))"
    by (rule node_window(1)[OF len j asc lo hi])
  have io: "inorder (Node False its (chs[j := c'])) = upsertList it (inorder (Node False its chs))"
    by (rule node_window(3)[OF len j asc lo hi ic])
  have "\<forall>c\<in>set (chs[j := c']). shape t False h c"
    using sh sc by (auto dest!: set_update_subset_insert[THEN subsetD])
  then have s': "shape t r (Suc h) (Node False its (chs[j := c']))"
    using sh by (auto split: if_splits)
  show ?thesis
    using c' s' io by (simp add: st prev_def del: inorder.simps shape.simps)
qed

lemma full_int: "1 \<le> t \<Longrightarrow> (int k = 2 * int t - 1) = (k = 2 * t - 1)"
  by auto

lemma insertNonFull_spec:
  assumes t: "2 \<le> t"
  shows "shape t r h n \<Longrightarrow> length (items n) < 2 * t - 1 \<Longrightarrow> ascending (inorder n) \<Longrightarrow>
         \<exists>n'. insertNonFull t n it
                 = Some (n', prev (PK it) (inorder n), stored (PK it) (inorder n) \<noteq> None)
              \<and> shape t r h n' \<and> inorder n' = upsertList it (inorder n)"
proof (induction h arbitrary: n r)
  case 0
  obtain lf its chs where n: "n = Node lf its chs" by (cases n)
  have lf: "lf" using "0.prems"(1) by (auto simp: n split: if_splits)
  show ?case
    using insertNonFull_leaf[of t r 0 its chs it] "0.prems" by (simp add: n lf del: shape.simps)
next
  case (Suc h)
  obtain lf its chs where n0: "n = Node lf its chs" by (cases n)
  have lf: "\<not> lf" using Suc.prems(1) by (auto simp: n0 split: if_splits)
  have n: "n = Node False its chs" using n0 lf by simp
  have sh: "shape t r (Suc h) (Node False its chs)" using Suc.prems(1) n by simp
  have len: "length chs = length its + 1" and chsh: "\<forall>c\<in>set chs. shape t False h c"
    using sh by simp_all
  have nfull: "length its < 2 * t - 1" using Suc.prems(2) n by simp
  have asc: "ascending (inorder (Node False its chs))" using Suc.prems(3) n by simp
  have ai: "ascending its" using ascending_items[OF sh asc] by simp
  define i where "i = Search (length its) (\<lambda>j. PK (its ! j) \<ge> PK it)"
  have i: "i \<le> length its" and lo: "\<forall>j<i. PK (its ! j) < PK it"
    using Search_sorted(1,2)[OF ai, of "PK it"] by (simp_all add: i_def)
  have ic: "i < length chs" using i len by simp
  show ?case
  proof (cases "i < length its \<and> PK (its ! i) = PK it")
    case True
    have r: "insertNonFull t (Node False its chs) it = Some (Node False (its[i := it]) chs, its ! i, True)"
      using True by (simp add: insertNonFull.simps[of t "Node False its chs" it] n i_def Let_def)
    have s: "shape t r (Suc h) (Node False (its[i := it]) chs)"
      using sh by (auto split: if_splits)
    have "inorder (Node False (its[i := it]) chs) = upsertList it (inorder (Node False its chs))"
      "stored (PK it) (inorder (Node False its chs)) = Some (its ! i)"
      using node_hit[OF len _ asc, of i it] True by simp_all
    then show ?thesis using r s by (simp add: n prev_def del: shape.simps inorder.simps)
  next
    case miss: False
    have hi: "\<forall>j. i \<le> j \<and> j < length its \<longrightarrow> PK it < PK (its ! j)"
      using Search_miss[OF ai i_def miss] .
    have csh: "shape t False h (chs ! i)" using chsh ic by simp
    show ?thesis
    proof (cases "length (items (chs ! i)) = 2 * t - 1")
      case False
      have r: "insertNonFull t (Node False its chs) it =
                 (case insertNonFull t (chs ! i) it of
                    None \<Rightarrow> None
                  | Some (c', old, replaced) \<Rightarrow> Some (Node False its (chs[i := c']), old, replaced))"
      proof -
        have f: "int (length (items (chs ! i))) \<noteq> 2 * int t - 1"
          using False t by (simp add: full_int)
        show ?thesis
          apply (subst insertNonFull.simps)
          using miss ic
          apply (simp only: Let_def node.sel i_def[symmetric] f if_True
              if_False simp_thms not_le[symmetric])
          apply ((simp cong: option.case_cong prod.case_cong)?)
          done
      qed
      have cn: "length (items (chs ! i)) < 2 * t - 1"
        using csh False by (cases "chs ! i") auto
      have ca: "ascending (inorder (chs ! i))" by (rule node_window(2)[OF len i asc lo hi])
      from Suc.IH[OF csh cn ca]
      have ch: "\<exists>c'. insertNonFull t (chs ! i) it
                    = Some (c', prev (PK it) (inorder (chs ! i)),
                            stored (PK it) (inorder (chs ! i)) \<noteq> None)
                  \<and> shape t False h c' \<and> inorder c' = upsertList it (inorder (chs ! i))" .
      show ?thesis unfolding n using node_descend[OF sh i asc lo hi ch] by (simp only: r)
    next
      case True
      have t1: "1 \<le> t" using t by simp
      from splitChild_spec[OF len i t1 csh True, of False]
      obtain y' z m where sp: "splitChild t (Node False its chs) i
             = Some (Node False (take i its @ m # drop i its)
                       (take i chs @ y' # z # drop (Suc i) chs))"
        and sy: "shape t False h y'" and sz: "shape t False h z"
        and ly: "length (items y') = t - 1" and lz: "length (items z) = t - 1"
        and io: "inorder (chs ! i) = inorder y' @ m # inorder z"
        by blast
      define its1 where "its1 = take i its @ m # drop i its"
      define chs1 where "chs1 = take i chs @ y' # z # drop (Suc i) chs"
      have len1: "length chs1 = length its1 + 1" using len i by (simp add: its1_def chs1_def)
      have l1: "length its1 = length its + 1" using i by (simp add: its1_def)
      have io1: "inorder (Node False its1 chs1) = inorder (Node False its chs)"
      proof -
        have "map inorder chs ! i = inorder y' @ m # inorder z" using io ic by simp
        from inter_split[OF _ i this] len
        show ?thesis by (simp add: its1_def chs1_def take_map drop_map)
      qed
      have asc1: "ascending (inorder (Node False its1 chs1))" using asc io1 by simp
      have "\<forall>c\<in>set chs1. shape t False h c"
        using chsh sy sz by (auto simp: chs1_def dest: in_set_takeD in_set_dropD)
      then have sh1: "shape t r (Suc h) (Node False its1 chs1)"
        using sh nfull len1 l1 by (auto split: if_splits)
      have m: "its1 ! i = m" using i by (simp add: its1_def nth_append)
      have nb: "\<And>a. a < i \<Longrightarrow> its1 ! a = its ! a"
        using i by (simp add: its1_def nth_append)
      have na: "\<And>a. i < a \<Longrightarrow> a < length its1 \<Longrightarrow> its1 ! a = its ! (a - 1)"
        using i by (auto simp: its1_def nth_append nth_Cons' min_def)
      have r0: "insertNonFull t (Node False its chs) it =
                  (if PK it > PK m then
                     (case insertNonFull t (chs1 ! (i + 1)) it of
                        None \<Rightarrow> None
                      | Some (c', old, replaced) \<Rightarrow>
                          Some (Node False its1 (chs1[i + 1 := c']), old, replaced))
                   else if PK it = PK m then
                     Some (Node False (its1[i := it]) chs1, m, True)
                   else
                     (case insertNonFull t (chs1 ! i) it of
                        None \<Rightarrow> None
                      | Some (c', old, replaced) \<Rightarrow>
                          Some (Node False its1 (chs1[i := c']), old, replaced)))"
      proof -
        have sp1: "splitChild t (Node False its chs) i = Some (Node False its1 chs1)"
          using sp by (simp only: its1_def chs1_def)
        have f: "int (length (items (chs ! i))) = 2 * int t - 1"
          using True t by (simp add: full_int)
        have c1: "i + 1 < length chs1" "i < length chs1" using len1 l1 i by simp_all
        show ?thesis
          apply (subst insertNonFull.simps)
          using miss ic c1
          apply (simp only: Let_def node.sel i_def[symmetric] f sp1 option.case m if_True
              if_False simp_thms not_le[symmetric])
          apply ((simp cong: option.case_cong prod.case_cong)?)
          done
      qed
      consider (gt) "PK it > PK m" | (eq) "PK it = PK m" | (lt) "PK it < PK m" by linarith
      then show ?thesis
      proof cases
        case gt
        have j: "i + 1 \<le> length its1" using l1 i by simp
        have lo1: "\<forall>a<i + 1. PK (its1 ! a) < PK it"
        proof (intro allI impI)
          fix a assume "a < i + 1"
          then consider "a < i" | "a = i" by linarith
          then show "PK (its1 ! a) < PK it" using lo nb m gt by cases simp_all
        qed
        have hi1: "\<forall>a. i + 1 \<le> a \<and> a < length its1 \<longrightarrow> PK it < PK (its1 ! a)"
        proof (intro allI impI)
          fix a assume a: "i + 1 \<le> a \<and> a < length its1"
          then have "its1 ! a = its ! (a - 1)" using na by simp
          moreover have "i \<le> a - 1 \<and> a - 1 < length its" using a l1 by auto
          ultimately show "PK it < PK (its1 ! a)" using hi by simp
        qed
        have cz: "chs1 ! (i + 1) = z" using ic by (simp add: chs1_def nth_append)
        have zn: "length (items z) < 2 * t - 1" using lz t by simp
        have za: "ascending (inorder (chs1 ! (i + 1)))"
          by (rule node_window(2)[OF len1 j asc1 lo1 hi1])
        from Suc.IH[OF sz zn] za cz
        have ch: "\<exists>c'. insertNonFull t (chs1 ! (i + 1)) it
                    = Some (c', prev (PK it) (inorder (chs1 ! (i + 1))),
                            stored (PK it) (inorder (chs1 ! (i + 1))) \<noteq> None)
                  \<and> shape t False h c' \<and> inorder c' = upsertList it (inorder (chs1 ! (i + 1)))"
          by simp
        have r: "insertNonFull t (Node False its chs) it =
                   (case insertNonFull t (chs1 ! (i + 1)) it of
                        None \<Rightarrow> None
                      | Some (c', old, replaced) \<Rightarrow>
                          Some (Node False its1 (chs1[i + 1 := c']), old, replaced))"
          using gt by (simp only: r0 if_True)
        show ?thesis unfolding n using node_descend[OF sh1 j asc1 lo1 hi1 ch] by (simp only: r io1)
      next
        case eq
        have j: "i < length its1" using l1 i by simp
        have r: "insertNonFull t (Node False its chs) it = Some (Node False (its1[i := it]) chs1, m, True)"
          using eq by (simp add: r0)
        have s: "shape t r (Suc h) (Node False (its1[i := it]) chs1)"
          using sh1 by (auto split: if_splits)
        have "inorder (Node False (its1[i := it]) chs1) = upsertList it (inorder (Node False its1 chs1))"
          "stored (PK it) (inorder (Node False its1 chs1)) = Some (its1 ! i)"
          using node_hit[OF len1 j asc1, of it] eq m by simp_all
        then show ?thesis
          using r s m by (simp add: n io1 prev_def del: shape.simps inorder.simps)
      next
        case lt
        have j: "i \<le> length its1" using l1 i by simp
        have lo1: "\<forall>a<i. PK (its1 ! a) < PK it" using lo nb by simp
        have hi1: "\<forall>a. i \<le> a \<and> a < length its1 \<longrightarrow> PK it < PK (its1 ! a)"
        proof (intro allI impI)
          fix a assume a: "i \<le> a \<and> a < length its1"
          show "PK it < PK (its1 ! a)"
          proof (cases "a = i")
            case True
            then show ?thesis using m lt by simp
          next
            case False
            then have "its1 ! a = its ! (a - 1)" using na a by simp
            moreover have "i \<le> a - 1 \<and> a - 1 < length its" using a l1 False by auto
            ultimately show ?thesis using hi by simp
          qed
        qed
        have cy: "chs1 ! i = y'" using ic by (simp add: chs1_def nth_append)
        have yn: "length (items y') < 2 * t - 1" using ly t by simp
        have ya: "ascending (inorder (chs1 ! i))"
          by (rule node_window(2)[OF len1 j asc1 lo1 hi1])
        from Suc.IH[OF sy yn] ya cy
        have ch: "\<exists>c'. insertNonFull t (chs1 ! i) it
                    = Some (c', prev (PK it) (inorder (chs1 ! i)),
                            stored (PK it) (inorder (chs1 ! i)) \<noteq> None)
                  \<and> shape t False h c' \<and> inorder c' = upsertList it (inorder (chs1 ! i))"
          by simp
        have r: "insertNonFull t (Node False its chs) it =
                   (case insertNonFull t (chs1 ! i) it of
                        None \<Rightarrow> None
                      | Some (c', old, replaced) \<Rightarrow>
                          Some (Node False its1 (chs1[i := c']), old, replaced))"
          using lt by (simp add: r0)
        show ?thesis unfolding n using node_descend[OF sh1 j asc1 lo1 hi1 ch] by (simp only: r io1)
      qed
    qed
  qed
qed

subsection \<open>\<open>Upsert\<close> keeps the tree a B-tree\<close>

definition btInv :: "BTree \<Rightarrow> bool" where
  "btInv b =
     (2 \<le> bt_t b \<and> (\<exists>h. shape (bt_t b) True h (bt_root b))
      \<and> ascending (inorder (bt_root b)) \<and> bt_n b = length (inorder (bt_root b)))"

text \<open>A sequence of \<open>Upsert\<close> calls; the results of the calls are dropped.\<close>

fun upserts :: "BTree \<Rightarrow> Item list \<Rightarrow> BTree option" where
  "upserts b [] = Some b"
| "upserts b (it # its) =
     (case Upsert b it of None \<Rightarrow> None | Some (b', old, replaced) \<Rightarrow> upserts b' its)"

lemma New_inv: "btInv (New t0)" and New_inorder: "inorder (bt_root (New t0)) = []"
proof -
  have "shape (bt_t (New t0)) True 0 (bt_root (New t0))" by (simp add: New_def)
  then show "btInv (New t0)" unfolding btInv_def by (auto simp: New_def)
  show "inorder (bt_root (New t0)) = []" by (simp add: New_def)
qed

lemma Upsert_spec:
  assumes "btInv b"
  shows "\<exists>b'. Upsert b it
                 = Some (b', prev (PK it) (inorder (bt_root b)),
                         stored (PK it) (inorder (bt_root b)) \<noteq> None)
              \<and> btInv b' \<and> bt_t b' = bt_t b
              \<and> inorder (bt_root b') = upsertList it (inorder (bt_root b))
              \<and> bt_n b' = (if stored (PK it) (inorder (bt_root b)) = None
                            then bt_n b + 1 else bt_n b)"
proof -
  define t where "t = bt_t b"
  define rt where "rt = bt_root b"
  from assms obtain h where t: "2 \<le> t" and sh: "shape t True h rt"
    and asc: "ascending (inorder rt)" and cnt: "bt_n b = length (inorder rt)"
    unfolding btInv_def t_def rt_def by blast
  let ?old = "prev (PK it) (inorder rt)" and ?rep = "stored (PK it) (inorder rt) \<noteq> None"
  have main: "\<exists>n' h'. (if int (length (items rt)) = 2 * int t - 1 then
               (case splitChild t (Node False [] [rt]) 0 of
                  None \<Rightarrow> None
                | Some s \<Rightarrow> insertNonFull t s it)
             else insertNonFull t rt it) = Some (n', ?old, ?rep)
           \<and> shape t True h' n' \<and> inorder n' = upsertList it (inorder rt)"
  proof (cases "length (items rt) = 2 * t - 1")
    case False
    then have "length (items rt) < 2 * t - 1" using sh by (cases rt) auto
    from insertNonFull_spec[OF t sh this asc, of it] False t
    show ?thesis by (auto simp: full_int)
  next
    case True
    have t1: "1 \<le> t" using t by simp
    have "shape t False h rt" using sh True t by (intro shape_root_to_inner) simp_all
    then have a: "shape t False h ([rt] ! 0)" by simp
    have b: "length (items ([rt] ! 0)) = 2 * t - 1" using True by simp
    from splitChild_spec[where its="[]" and chs="[rt]" and i=0 and lf=False, OF _ _ t1 a b]
    obtain y' z m where sp: "splitChild t (Node False [] [rt]) 0 = Some (Node False [m] [y', z])"
      and sy: "shape t False h y'" and sz: "shape t False h z"
      and io: "inorder rt = inorder y' @ m # inorder z"
      by auto
    have s1: "shape t True (Suc h) (Node False [m] [y', z])" using sy sz t by simp
    have n1: "length (items (Node False [m] [y', z])) < 2 * t - 1" using t by simp
    have i1: "inorder (Node False [m] [y', z]) = inorder rt" using io by simp
    have a1: "ascending (inorder (Node False [m] [y', z]))" using asc i1 by simp
    from insertNonFull_spec[OF t s1 n1 a1, of it] True t sp
    show ?thesis unfolding i1 by (auto simp: full_int)
  qed
  then obtain n' h' where r: "(if int (length (items rt)) = 2 * int t - 1 then
               (case splitChild t (Node False [] [rt]) 0 of
                  None \<Rightarrow> None
                | Some s \<Rightarrow> insertNonFull t s it)
             else insertNonFull t rt it) = Some (n', ?old, ?rep)"
    and s': "shape t True h' n'" and i': "inorder n' = upsertList it (inorder rt)"
    by blast
  define b' where "b' = b\<lparr>bt_root := n', bt_n := (if \<not> ?rep then bt_n b + 1 else bt_n b)\<rparr>"
  have U: "Upsert b it = Some (b', ?old, ?rep)"
    using r unfolding Upsert_def Let_def t_def[symmetric] rt_def[symmetric] b'_def
    by (auto split: if_splits option.splits)
  have "length (inorder n') = (if \<not> ?rep then bt_n b + 1 else bt_n b)"
    using length_upsertList[OF asc, of it] cnt i' by auto
  then have "btInv b'"
    unfolding btInv_def using t s' asc i' ascending_upsertList[OF asc, of it]
    by (auto simp: b'_def t_def)
  then show ?thesis using U i' by (auto simp: b'_def rt_def)
qed

lemma upserts_spec:
  "btInv b \<Longrightarrow>
   \<exists>b'. upserts b its = Some b' \<and> btInv b' \<and> bt_t b' = bt_t b
        \<and> inorder (bt_root b') = foldl (\<lambda>xs it. upsertList it xs) (inorder (bt_root b)) its"
proof (induction its arbitrary: b)
  case Nil
  then show ?case by simp
next
  case (Cons it its)
  from Upsert_spec[OF Cons.prems, of it] obtain b1 old rep
    where u: "Upsert b it = Some (b1, old, rep)" and i: "btInv b1" and t: "bt_t b1 = bt_t b"
      and io: "inorder (bt_root b1) = upsertList it (inorder (bt_root b))"
    by blast
  from Cons.IH[OF i] show ?case using u t io by simp
qed

lemma reachable_inv:
  assumes "upserts (New t0) its = Some b"
  shows "btInv b" and "bt_t b = (if t0 < 2 then 2 else nat t0)"
  using upserts_spec[OF New_inv, of t0 its] assms by (auto simp: New_def)

subsection \<open>The nodes and items of a tree\<close>

fun subnodes :: "node \<Rightarrow> node list" where
  "subnodes (Node lf its chs) = Node lf its chs # concat (map subnodes chs)"

fun treeItems :: "node \<Rightarrow> Item list" where
  "treeItems (Node lf its chs) = its @ concat (map treeItems chs)"

text \<open>The depths of the leaves below a node that is at depth \<open>d\<close>.\<close>

fun leafDepths :: "nat \<Rightarrow> node \<Rightarrow> nat list" where
  "leafDepths d (Node lf its chs) =
     (if lf then [d] else concat (map (leafDepths (d + 1)) chs))"

lemma mset_inter:
  "length cs = length xs + 1 \<Longrightarrow> mset (inter cs xs) = mset xs + mset (concat cs)"
  by (induction cs xs rule: inter.induct) auto

lemma mset_concat_cong:
  "\<forall>c\<in>set cs. mset (f c) = mset (g c) \<Longrightarrow> mset (concat (map f cs)) = mset (concat (map g cs))"
  by (induction cs) auto

lemma mset_inorder:
  "shape t r h n \<Longrightarrow> mset (inorder n) = mset (treeItems n)"
proof (induction h arbitrary: n r)
  case 0
  then show ?case by (cases n) auto
next
  case (Suc h)
  obtain lf its chs where n: "n = Node lf its chs" by (cases n)
  have lf: "\<not> lf" using Suc.prems by (auto simp: n)
  have len: "length (map inorder chs) = length its + 1" using Suc.prems lf by (simp add: n)
  have "\<forall>c\<in>set chs. mset (inorder c) = mset (treeItems c)"
    using Suc.prems lf Suc.IH by (auto simp: n)
  then have "mset (concat (map inorder chs)) = mset (concat (map treeItems chs))"
    by (rule mset_concat_cong)
  then show ?case using mset_inter[OF len] lf by (simp add: n)
qed

lemma stored_member:
  "ascending xs \<Longrightarrow> x \<in> set xs \<Longrightarrow> stored (PK x) xs = Some x"
  by (induction xs) (auto simp: stored_def)

lemma shape_subnodes:
  "shape t False h n \<Longrightarrow> m \<in> set (subnodes n) \<Longrightarrow>
   t - 1 \<le> length (items m) \<and> length (items m) \<le> 2 * t - 1
   \<and> (\<not> leaf m \<longrightarrow> length (children m) = length (items m) + 1)"
proof (induction h arbitrary: n)
  case 0
  then show ?case by (cases n) auto
next
  case (Suc h)
  obtain lf its chs where n: "n = Node lf its chs" by (cases n)
  have lf: "\<not> lf" using Suc.prems(1) by (auto simp: n)
  from Suc.prems(2) consider "m = n" | c where "c \<in> set chs" "m \<in> set (subnodes c)"
    by (auto simp: n)
  then show ?case
  proof cases
    case 1
    then show ?thesis using Suc.prems(1) lf by (simp add: n)
  next
    case 2
    then have "shape t False h c" using Suc.prems(1) lf by (simp add: n)
    from Suc.IH[OF this 2(2)] show ?thesis .
  qed
qed

lemma shape_leafDepths:
  "shape t r h n \<Longrightarrow> leafDepths d n \<noteq> [] \<and> (\<forall>x\<in>set (leafDepths d n). x = d + h)"
proof (induction h arbitrary: n r d)
  case 0
  then show ?case by (cases n) auto
next
  case (Suc h)
  obtain lf its chs where n: "n = Node lf its chs" by (cases n)
  have lf: "\<not> lf" using Suc.prems by (auto simp: n)
  have ch: "\<forall>c\<in>set chs. shape t False h c" and ne: "chs \<noteq> []"
    using Suc.prems lf by (auto simp: n)
  have a: "\<forall>c\<in>set chs. leafDepths (d + 1) c \<noteq> [] \<and> (\<forall>x\<in>set (leafDepths (d + 1) c). x = d + 1 + h)"
    using Suc.IH ch by blast
  obtain c cs where "chs = c # cs" using ne by (cases chs) auto
  then have "leafDepths d n \<noteq> []" using a lf by (simp add: n)
  moreover have "\<forall>x\<in>set (leafDepths d n). x = d + Suc h" using a lf by (auto simp: n)
  ultimately show ?case by simp
qed

lemma ascending_inter_children:
  "ascending (inter cs xs) \<Longrightarrow> length cs = length xs + 1 \<Longrightarrow> \<forall>c\<in>set cs. ascending c"
  by (induction cs xs rule: inter.induct) (auto simp: sorted_wrt_append)

lemma ascending_subnodes:
  "shape t r h n \<Longrightarrow> ascending (inorder n) \<Longrightarrow> m \<in> set (subnodes n) \<Longrightarrow> ascending (items m)"
proof (induction h arbitrary: n r)
  case 0
  then show ?case by (cases n) auto
next
  case (Suc h)
  obtain lf its chs where n: "n = Node lf its chs" by (cases n)
  have lf: "\<not> lf" using Suc.prems(1) by (auto simp: n)
  from Suc.prems(3) consider "m = n" | c where "c \<in> set chs" "m \<in> set (subnodes c)"
    by (auto simp: n)
  then show ?case
  proof cases
    case 1
    then show ?thesis using ascending_items[OF Suc.prems(1,2)] by simp
  next
    case 2
    have s: "shape t False h c" using Suc.prems(1) lf 2(1) by (simp add: n)
    have "length (map inorder chs) = length its + 1" using Suc.prems(1) lf by (simp add: n)
    from ascending_inter_children[OF _ this] Suc.prems(2) lf 2(1)
    have "ascending (inorder c)" by (simp add: n)
    from Suc.IH[OF s this 2(2)] show ?thesis .
  qed
qed

text \<open>
  Claim C6. In a tree built by a sequence of \<open>Upsert\<close> calls: \<open>Upsert\<close> of an
  item whose key is the key of an item \<open>old\<close> in the tree returns \<open>old\<close> with
  \<open>replaced = true\<close> and leaves \<open>Len()\<close> as it is; \<open>Upsert\<close> of an item whose key
  is not in the tree returns the zero \<open>Item\<close> with \<open>replaced = false\<close> and adds 1 to
  \<open>Len()\<close>.
\<close>

theorem Upsert_replace_semantics:
  assumes "upserts (New t0) its = Some b"
  shows "(\<forall>old\<in>set (treeItems (bt_root b)). PK old = PK it \<longrightarrow>
            (\<exists>b'. Upsert b it = Some (b', old, True) \<and> Len b' = Len b))
         \<and> (PK it \<notin> PK ` set (treeItems (bt_root b)) \<longrightarrow>
            (\<exists>b'. Upsert b it = Some (b', zeroItem, False) \<and> Len b' = Len b + 1))"
proof -
  have inv: "btInv b" by (rule reachable_inv(1)[OF assms])
  then obtain h where sh: "shape (bt_t b) True h (bt_root b)"
    and asc: "ascending (inorder (bt_root b))" unfolding btInv_def by blast
  have "mset (inorder (bt_root b)) = mset (treeItems (bt_root b))" by (rule mset_inorder[OF sh])
  then have se: "set (inorder (bt_root b)) = set (treeItems (bt_root b))" by (rule mset_eq_setD)
  from Upsert_spec[OF inv, of it] obtain b'
    where u: "Upsert b it = Some (b', prev (PK it) (inorder (bt_root b)),
                                  stored (PK it) (inorder (bt_root b)) \<noteq> None)"
      and n: "bt_n b' = (if stored (PK it) (inorder (bt_root b)) = None
                         then bt_n b + 1 else bt_n b)"
    by blast
  show ?thesis
  proof (intro conjI ballI impI)
    fix old assume o: "old \<in> set (treeItems (bt_root b))" and k: "PK old = PK it"
    have "old \<in> set (inorder (bt_root b))" using o se by simp
    from stored_member[OF asc this]
    have "stored (PK it) (inorder (bt_root b)) = Some old" using k by simp
    then show "\<exists>b'. Upsert b it = Some (b', old, True) \<and> Len b' = Len b"
      using u n k by (simp add: prev_def Len_def)
  next
    assume "PK it \<notin> PK ` set (treeItems (bt_root b))"
    then have "stored (PK it) (inorder (bt_root b)) = None"
      using se by (simp add: stored_None_iff)
    then show "\<exists>b'. Upsert b it = Some (b', zeroItem, False) \<and> Len b' = Len b + 1"
      using u n by (simp add: prev_def Len_def)
  qed
qed

text \<open>
  Claim C2. After any sequence of \<open>Upsert\<close> calls on a tree of minimum degree \<open>t\<close>
  (no call panics): every node but the root holds between \<open>t - 1\<close> and \<open>2t - 1\<close>
  items; the items of every node are in ascending order of key; an internal node
  with \<open>k\<close> items has \<open>k + 1\<close> children; all leaves are at one depth.
\<close>

theorem upserts_btree_shape:
  "\<exists>b. upserts (New t0) its = Some b
       \<and> bt_t b = (if t0 < 2 then 2 else nat t0)
       \<and> (\<forall>m\<in>set (concat (map subnodes (children (bt_root b)))).
             bt_t b - 1 \<le> length (items m) \<and> length (items m) \<le> 2 * bt_t b - 1)
       \<and> (\<forall>m\<in>set (subnodes (bt_root b)).
             sorted_wrt (<) (map PK (items m))
             \<and> (\<not> leaf m \<longrightarrow> length (children m) = length (items m) + 1))
       \<and> (\<forall>d\<in>set (leafDepths 0 (bt_root b)). d = hd (leafDepths 0 (bt_root b)))"
proof -
  from upserts_spec[OF New_inv, of t0 its] obtain b
    where u: "upserts (New t0) its = Some b" by blast
  have inv: "btInv b" and t: "bt_t b = (if t0 < 2 then 2 else nat t0)"
    using reachable_inv[OF u] by simp_all
  from inv obtain h where t2: "2 \<le> bt_t b" and sh: "shape (bt_t b) True h (bt_root b)"
    and asc: "ascending (inorder (bt_root b))" unfolding btInv_def by blast
  obtain lf its' chs where r: "bt_root b = Node lf its' chs" by (cases "bt_root b")
  have ch: "\<forall>c\<in>set chs. shape (bt_t b) False (h - 1) c"
    using sh by (auto simp: r)
  have inner: "\<forall>m\<in>set (concat (map subnodes chs)).
             bt_t b - 1 \<le> length (items m) \<and> length (items m) \<le> 2 * bt_t b - 1
             \<and> (\<not> leaf m \<longrightarrow> length (children m) = length (items m) + 1)"
    using ch shape_subnodes by auto
  have rootc: "\<not> lf \<longrightarrow> length chs = length its' + 1" using sh by (simp add: r)
  have a: "\<forall>m\<in>set (subnodes (bt_root b)). sorted_wrt (<) (map PK (items m))"
    using ascending_subnodes[OF sh asc] by blast
  have c: "\<forall>m\<in>set (subnodes (bt_root b)).
             \<not> leaf m \<longrightarrow> length (children m) = length (items m) + 1"
    using inner rootc by (auto simp: r)
  have d: "\<forall>d\<in>set (leafDepths 0 (bt_root b)). d = hd (leafDepths 0 (bt_root b))"
  proof -
    from shape_leafDepths[OF sh, of 0]
    have ne: "leafDepths 0 (bt_root b) \<noteq> []"
      and al: "\<forall>x\<in>set (leafDepths 0 (bt_root b)). x = 0 + h" by blast+
    from ne have "hd (leafDepths 0 (bt_root b)) \<in> set (leafDepths 0 (bt_root b))" by simp
    then have "hd (leafDepths 0 (bt_root b)) = 0 + h" using al by blast
    then show ?thesis using al by simp
  qed
  show ?thesis using u t inner a c d by (auto simp: r)
qed

text \<open>
  The theorem on the tree built from the keys 10, 20, 5: an upsert of key 20 and an
  upsert of the new key 7.
\<close>

theorem Upsert_replace_semantics_witness:
  "upserts (New 2) [Item 10 None, Item 20 (Some [(''a'', VBool True)]), Item 5 None]
     = Some \<lparr>bt_t = 2,
             bt_root = Node True [Item 5 None, Item 10 None, Item 20 (Some [(''a'', VBool True)])] [],
             bt_n = 3\<rparr>
   \<and> (\<exists>b'. Upsert \<lparr>bt_t = 2,
             bt_root = Node True [Item 5 None, Item 10 None, Item 20 (Some [(''a'', VBool True)])] [],
             bt_n = 3\<rparr> (Item 20 None)
            = Some (b', Item 20 (Some [(''a'', VBool True)]), True) \<and> Len b' = 3)
   \<and> (\<exists>b'. Upsert \<lparr>bt_t = 2,
             bt_root = Node True [Item 5 None, Item 10 None, Item 20 (Some [(''a'', VBool True)])] [],
             bt_n = 3\<rparr> (Item 7 None)
            = Some (b', zeroItem, False) \<and> Len b' = 4)"
proof -
  let ?b = "\<lparr>bt_t = 2,
             bt_root = Node True [Item 5 None, Item 10 None, Item 20 (Some [(''a'', VBool True)])] [],
             bt_n = 3\<rparr>"
  have u: "upserts (New 2) [Item 10 None, Item 20 (Some [(''a'', VBool True)]), Item 5 None]
             = Some ?b"
    by code_simp
  show ?thesis
    using u Upsert_replace_semantics[OF u, of "Item 20 None"]
      Upsert_replace_semantics[OF u, of "Item 7 None"]
    by (simp add: Len_def)
qed

text \<open>
  The theorem on the tree of minimum degree 2 built from the keys
  10, 20, 5, 6, 12, 30, 7, 17: a root with two items over three leaves.
\<close>

theorem upserts_btree_shape_witness:
  "upserts (New 2) [Item 10 None, Item 20 None, Item 5 None, Item 6 None, Item 12 None,
                    Item 30 None, Item 7 None, Item 17 None]
     = Some \<lparr>bt_t = 2,
             bt_root = Node False [Item 10 None, Item 20 None]
                [Node True [Item 5 None, Item 6 None, Item 7 None] [],
                 Node True [Item 12 None, Item 17 None] [],
                 Node True [Item 30 None] []],
             bt_n = 8\<rparr>
   \<and> list_all (\<lambda>m. (2::nat) - 1 \<le> length (items m) \<and> length (items m) \<le> 2 * 2 - 1
                    \<and> sorted_wrt (<) (map PK (items m)))
        [Node True [Item 5 None, Item 6 None, Item 7 None] [],
         Node True [Item 12 None, Item 17 None] [],
         Node True [Item 30 None] []]
   \<and> leafDepths 0 (Node False [Item 10 None, Item 20 None]
                [Node True [Item 5 None, Item 6 None, Item 7 None] [],
                 Node True [Item 12 None, Item 17 None] [],
                 Node True [Item 30 None] []]) = [1, 1, 1]"
proof -
  let ?b = "\<lparr>bt_t = 2,
             bt_root = Node False [Item 10 None, Item 20 None]
                [Node True [Item 5 None, Item 6 None, Item 7 None] [],
                 Node True [Item 12 None, Item 17 None] [],
                 Node True [Item 30 None] []],
             bt_n = 8\<rparr>"
  have u: "upserts (New 2) [Item 10 None, Item 20 None, Item 5 None, Item 6 None, Item 12 None,
                    Item 30 None, Item 7 None, Item 17 None] = Some ?b"
    by code_simp
  show ?thesis
    using u upserts_btree_shape[of 2 "[Item 10 None, Item 20 None, Item 5 None, Item 6 None,
                    Item 12 None, Item 30 None, Item 7 None, Item 17 None]"]
    by simp
qed

section \<open>The ascending cursor emits the tree in order\<close>

text \<open>
  What a frame, and a whole stack, still has to emit: for the frame \<open>(n, i)\<close> of a
  leaf the items from \<open>i\<close> on, for the frame of an internal node the items from
  \<open>i\<close> on, each followed by the subtree to its right.
\<close>

definition frameRest :: "iterFrame \<Rightarrow> Item list" where
  "frameRest fr =
     (if leaf (fst fr) then drop (snd fr) (items (fst fr))
      else after (drop (snd fr) (items (fst fr)))
             (drop (Suc (snd fr)) (map inorder (children (fst fr)))))"

definition stackRest :: "iterFrame list \<Rightarrow> Item list" where
  "stackRest st = concat (map frameRest st)"

definition wfStack :: "nat \<Rightarrow> iterFrame list \<Rightarrow> bool" where
  "wfStack t st = (\<forall>fr\<in>set st. \<exists>r h. shape t r h (fst fr))"

lemma pushLeft_spec:
  "shape t r h n \<Longrightarrow> wfStack t st \<Longrightarrow>
   \<exists>st'. pushLeft st n = Some st' \<and> wfStack t st' \<and> stackRest st' = inorder n @ stackRest st"
proof (induction h arbitrary: n r st)
  case 0
  obtain lf its chs where n: "n = Node lf its chs" by (cases n)
  have lf: "lf" using "0.prems"(1) by (auto simp: n)
  have "pushLeft st n = Some ((n, 0) # st)"
    unfolding n by (subst pushLeft.simps) (simp add: lf)
  moreover have "wfStack t ((n, 0) # st)" using "0.prems" unfolding wfStack_def by auto
  moreover have "stackRest ((n, 0) # st) = inorder n @ stackRest st"
    by (simp add: stackRest_def frameRest_def n lf)
  ultimately show ?case by simp
next
  case (Suc h)
  obtain lf its chs where n: "n = Node lf its chs" by (cases n)
  have lf: "\<not> lf" using Suc.prems(1) by (auto simp: n)
  have len: "length chs = length its + 1" and ch: "\<forall>c\<in>set chs. shape t False h c"
    using Suc.prems(1) lf by (simp_all add: n)
  obtain c cs where chs: "chs = c # cs" using len by (cases chs) auto
  have w: "wfStack t ((n, 0) # st)" using Suc.prems unfolding wfStack_def by auto
  have sc: "shape t False h c" using ch chs by simp
  from Suc.IH[OF sc w] obtain st' where p: "pushLeft ((n, 0) # st) c = Some st'"
    and w': "wfStack t st'" and r: "stackRest st' = inorder c @ stackRest ((n, 0) # st)"
    by blast
  have "pushLeft st n = Some st'"
    using p unfolding n by (subst pushLeft.simps) (simp add: lf chs)
  moreover have "stackRest ((n, 0) # st) = after its (map inorder cs) @ stackRest st"
    by (simp add: stackRest_def frameRest_def n lf chs)
  moreover have "inorder n = inorder c @ after its (map inorder cs)"
    using inter_head[of "map inorder cs" its "inorder c"] len lf by (simp add: n chs)
  ultimately show ?case using w' r by simp
qed

lemma Next_spec:
  "wfStack t st \<Longrightarrow>
   \<exists>item ok st'. Next st = Some (item, ok, st') \<and> wfStack t st'
     \<and> (stackRest st = [] \<longrightarrow> \<not> ok \<and> item = zeroItem \<and> stackRest st' = [])
     \<and> (stackRest st \<noteq> [] \<longrightarrow> ok \<and> item = hd (stackRest st) \<and> stackRest st' = tl (stackRest st))"
proof (induction st)
  case Nil
  then show ?case by (auto simp: stackRest_def)
next
  case (Cons fr st)
  obtain n i where fr: "fr = (n, i)" by (cases fr)
  obtain lf its chs where n: "n = Node lf its chs" by (cases n)
  from Cons.prems obtain r h where sh: "shape t r h n" and w: "wfStack t st"
    unfolding wfStack_def by (auto simp: fr)
  show ?case
  proof (cases "i < length its")
    case False
    then have "frameRest fr = []" by (simp add: frameRest_def fr n)
    then have e: "stackRest (fr # st) = stackRest st" by (simp add: stackRest_def)
    have "Next (fr # st) = Next st" using False by (simp add: fr n)
    then show ?thesis using Cons.IH[OF w] e by simp
  next
    case True
    show ?thesis
    proof (cases lf)
      case lf: True
      have nx: "Next (fr # st) = Some (its ! i, True, (n, i + 1) # st)"
        using True lf by (simp add: fr n Let_def)
      have "frameRest fr = its ! i # frameRest (n, i + 1)"
        using True lf by (simp add: frameRest_def fr n Cons_nth_drop_Suc)
      then have "stackRest (fr # st) = its ! i # stackRest ((n, i + 1) # st)"
        by (simp add: stackRest_def)
      moreover have "wfStack t ((n, i + 1) # st)"
        using Cons.prems unfolding wfStack_def by (auto simp: fr)
      ultimately show ?thesis using nx by auto
    next
      case lf: False
      have len: "length chs = length its + 1" and ch: "\<forall>c\<in>set chs. shape t False (h - 1) c"
        using sh lf by (simp_all add: n)
      have ic: "i + 1 < length chs" using True len by simp
      have w1: "wfStack t ((n, i + 1) # st)"
        using Cons.prems unfolding wfStack_def by (auto simp: fr)
      have sc: "shape t False (h - 1) (chs ! (i + 1))" using ch ic by simp
      from pushLeft_spec[OF sc w1] obtain st' where
        p: "pushLeft ((n, i + 1) # st) (chs ! (i + 1)) = Some st'" and w': "wfStack t st'"
        and r: "stackRest st' = inorder (chs ! (i + 1)) @ stackRest ((n, i + 1) # st)"
        by blast
      have nx: "Next (fr # st) = Some (its ! i, True, st')"
        using True lf ic p by (simp add: fr n Let_def)
      have "after (drop i its) (drop (Suc i) (map inorder chs))
              = its ! i # map inorder chs ! Suc i
                  @ after (drop (Suc i) its) (drop (Suc (Suc i)) (map inorder chs))"
        using after_drop[of i its "map inorder chs"] True ic by simp
      then have "frameRest fr = its ! i # inorder (chs ! (i + 1)) @ frameRest (n, i + 1)"
        using lf ic by (simp add: frameRest_def fr n)
      then have "stackRest (fr # st) = its ! i # stackRest st'"
        using r by (simp add: stackRest_def)
      then show ?thesis using nx w' by auto
    qed
  qed
qed

lemma collect_spec:
  "wfStack t st \<Longrightarrow> collect st = Some (stackRest st)"
proof (induction "length (stackRest st)" arbitrary: st)
  case 0
  from Next_spec[OF "0.prems"] "0.hyps" obtain item st'
    where "Next st = Some (item, False, st')" by auto
  then show ?case using "0.hyps" by (simp add: collect.simps[of st])
next
  case (Suc k)
  then have ne: "stackRest st \<noteq> []" by auto
  from Next_spec[OF Suc.prems] ne obtain st'
    where nx: "Next st = Some (hd (stackRest st), True, st')" and w: "wfStack t st'"
      and r: "stackRest st' = tl (stackRest st)" by auto
  have "k = length (stackRest st')" using Suc.hyps(2) r by simp
  from Suc.hyps(1)[OF this w] have "collect st' = Some (tl (stackRest st))" using r by simp
  then show ?case using nx ne by (simp add: collect.simps[of st])
qed

lemma ascending_distinct: "sorted_wrt (<) (ks :: int list) \<Longrightarrow> distinct ks"
  by (induction ks) auto

lemma IterAscend_spec:
  assumes "btInv b"
  shows "\<exists>it. IterAscend b = Some it \<and> wfStack (bt_t b) it
              \<and> stackRest it = inorder (bt_root b)"
proof -
  from assms obtain h where sh: "shape (bt_t b) True h (bt_root b)"
    unfolding btInv_def by blast
  have w: "wfStack (bt_t b) []" by (simp add: wfStack_def)
  from pushLeft_spec[OF sh w] show ?thesis
    by (auto simp: IterAscend_def stackRest_def)
qed

text \<open>
  Claim C1. After any sequence of \<open>Upsert\<close> calls, the cursor of \<open>IterAscend\<close>,
  driven by \<open>Next\<close> until it reports no more items, emits the items of the tree
  with strictly increasing keys, so no key twice, and as many items as \<open>Len()\<close>
  says.
\<close>

theorem IterAscend_ordering:
  "\<exists>b it xs. upserts (New t0) its = Some b \<and> IterAscend b = Some it \<and> collect it = Some xs
      \<and> sorted_wrt (<) (map PK xs) \<and> distinct (map PK xs)
      \<and> length xs = Len b \<and> mset xs = mset (treeItems (bt_root b))"
proof -
  from upserts_spec[OF New_inv, of t0 its] obtain b
    where u: "upserts (New t0) its = Some b" and inv: "btInv b" by blast
  from IterAscend_spec[OF inv] obtain it where i: "IterAscend b = Some it"
    and w: "wfStack (bt_t b) it" and r: "stackRest it = inorder (bt_root b)" by blast
  have c: "collect it = Some (inorder (bt_root b))" using collect_spec[OF w] r by simp
  from inv obtain h where sh: "shape (bt_t b) True h (bt_root b)"
    and asc: "ascending (inorder (bt_root b))" and n: "bt_n b = length (inorder (bt_root b))"
    unfolding btInv_def by blast
  have d: "distinct (map PK (inorder (bt_root b)))"
    using asc by (rule ascending_distinct)
  show ?thesis using u i c asc d n mset_inorder[OF sh] by (simp add: Len_def)
qed

text \<open>The theorem on the tree of the keys 10, 20, 5, 6, 12, 30, 7, 17, 12 (12 twice).\<close>

theorem IterAscend_ordering_witness:
  "\<exists>b it. upserts (New 2) [Item 10 None, Item 20 None, Item 5 None, Item 6 None, Item 12 None,
                    Item 30 None, Item 7 None, Item 17 None, Item 12 (Some [])] = Some b
      \<and> IterAscend b = Some it
      \<and> collect it = Some [Item 5 None, Item 6 None, Item 7 None, Item 10 None,
                            Item 12 (Some []), Item 17 None, Item 20 None, Item 30 None]
      \<and> Len b = 8"
proof -
  let ?b = "\<lparr>bt_t = 2,
             bt_root = Node False [Item 10 None, Item 20 None]
                [Node True [Item 5 None, Item 6 None, Item 7 None] [],
                 Node True [Item 12 (Some []), Item 17 None] [],
                 Node True [Item 30 None] []],
             bt_n = 8\<rparr>"
  have u: "upserts (New 2) [Item 10 None, Item 20 None, Item 5 None, Item 6 None, Item 12 None,
                    Item 30 None, Item 7 None, Item 17 None, Item 12 (Some [])] = Some ?b"
    by code_simp
  have c: "case IterAscend ?b of None \<Rightarrow> False
           | Some it \<Rightarrow> collect it = Some [Item 5 None, Item 6 None, Item 7 None, Item 10 None,
                            Item 12 (Some []), Item 17 None, Item 20 None, Item 30 None]"
    by code_simp
  show ?thesis
    using u c IterAscend_ordering[of 2 "[Item 10 None, Item 20 None, Item 5 None, Item 6 None,
                    Item 12 None, Item 30 None, Item 7 None, Item 17 None, Item 12 (Some [])]"]
    by (auto simp: Len_def split: option.splits)
qed

section \<open>\<open>AscendRange\<close> visits the range in order\<close>

text \<open>
  Calling the visitor on the items of a list in turn until it returns false: the
  visitor's state afterwards.
\<close>

fun visit :: "('s \<Rightarrow> Item \<Rightarrow> 's \<times> bool) \<Rightarrow> Item list \<Rightarrow> 's \<Rightarrow> 's" where
  "visit fn [] s = s"
| "visit fn (x # xs) s = (if snd (fn s x) then visit fn xs (fst (fn s x)) else fst (fn s x))"

text \<open>
  The traversal over a list: items below \<open>lo\<close> are passed over, items in the range
  are visited, and it stops at the first item at or above \<open>hi\<close> or when the visitor
  returns false.
\<close>

fun walk :: "int \<Rightarrow> int \<Rightarrow> ('s \<Rightarrow> Item \<Rightarrow> 's \<times> bool) \<Rightarrow> Item list \<Rightarrow> 's \<Rightarrow> 's \<times> bool" where
  "walk lo hi fn [] s = (s, True)"
| "walk lo hi fn (x # xs) s =
     (let r = (if PK x \<ge> lo \<and> PK x < hi then fn s x else (s, True))
      in if \<not> snd r then (fst r, False)
         else if PK x \<ge> hi then (fst r, False)
         else walk lo hi fn xs (fst r))"

lemma walk_append:
  "walk lo hi fn (A @ B) s =
     (if snd (walk lo hi fn A s) then walk lo hi fn B (fst (walk lo hi fn A s))
      else (fst (walk lo hi fn A s), False))"
  by (induction A arbitrary: s) (auto simp: Let_def)

lemma walk_visit:
  "ascending xs \<Longrightarrow>
   fst (walk lo hi fn xs s) = visit fn (filter (\<lambda>x. lo \<le> PK x \<and> PK x < hi) xs) s"
proof (induction xs arbitrary: s)
  case Nil
  then show ?case by simp
next
  case (Cons x xs)
  have a: "ascending xs" using Cons.prems by simp
  show ?case
  proof (cases "PK x \<ge> hi")
    case True
    have "\<forall>y\<in>set xs. hi \<le> PK y" using Cons.prems True by auto
    then have "filter (\<lambda>x. lo \<le> PK x \<and> PK x < hi) xs = []"
      by (auto simp: filter_empty_conv)
    then show ?thesis using True by simp
  next
    case False
    then show ?thesis using Cons.IH[OF a] by (simp add: Let_def)
  qed
qed

definition nodeRest :: "node \<Rightarrow> nat \<Rightarrow> Item list" where
  "nodeRest n i =
     (if leaf n then drop i (items n)
      else inorder (children n ! i)
             @ after (drop i (items n)) (drop (Suc i) (map inorder (children n))))"

lemma nodeRest_0: "shape t r h n \<Longrightarrow> nodeRest n 0 = inorder n"
proof -
  assume sh: "shape t r h n"
  obtain lf its chs where n: "n = Node lf its chs" by (cases n)
  show ?thesis
  proof (cases lf)
    case True
    then show ?thesis by (simp add: nodeRest_def n)
  next
    case False
    then have "length (map inorder chs) = length its + 1" using sh by (simp add: n)
    from inter_at[OF this, of 0] False sh show ?thesis by (simp add: nodeRest_def n)
  qed
qed

lemma ascendFrom_spec:
  "shape t r h n \<Longrightarrow> i \<le> length (items n) \<Longrightarrow>
   ascendFrom n i lo hi fn s = Some (walk lo hi fn (nodeRest n i) s)"
proof (induction h arbitrary: n r i s)
  case 0
  obtain lf its chs where n0: "n = Node lf its chs" by (cases n)
  have lf: "lf" using "0.prems"(1) by (auto simp: n0)
  have n: "n = Node True its chs" using n0 lf by simp
  show ?case using "0.prems"(2) unfolding n
  proof (induction "length its - i" arbitrary: i s)
    case 0
    then show ?case by (subst ascendFrom.simps) (simp add: nodeRest_def)
  next
    case (Suc k)
    then have i: "i < length its" by simp
    have k: "k = length its - (Suc i)" using Suc.hyps(2) by simp
    have r: "nodeRest (Node True its chs) i = its ! i # nodeRest (Node True its chs) (Suc i)"
      using i by (simp add: nodeRest_def Cons_nth_drop_Suc)
    have "Suc i \<le> length (items (Node True its chs))" using i by simp
    from Suc.hyps(1)[OF k this]
    have IH: "\<And>s. ascendFrom (Node True its chs) (Suc i) lo hi fn s
                  = Some (walk lo hi fn (nodeRest (Node True its chs) (Suc i)) s)" .
    show ?case
      apply (subst ascendFrom.simps)
      using i by (simp add: r IH Let_def)
  qed
next
  case (Suc h)
  obtain lf its chs where n0: "n = Node lf its chs" by (cases n)
  have lf: "\<not> lf" using Suc.prems(1) by (auto simp: n0)
  have n: "n = Node False its chs" using n0 lf by simp
  have len: "length chs = length its + 1" and ch: "\<forall>c\<in>set chs. shape t False h c"
    using Suc.prems(1) by (simp_all add: n)
  have child: "\<And>j s. j < length chs \<Longrightarrow>
                 ascendFrom (chs ! j) 0 lo hi fn s = Some (walk lo hi fn (inorder (chs ! j)) s)"
  proof -
    fix j s assume "j < length chs"
    then have sc: "shape t False h (chs ! j)" using ch by simp
    from Suc.IH[OF sc, of 0 s] nodeRest_0[OF sc]
    show "ascendFrom (chs ! j) 0 lo hi fn s = Some (walk lo hi fn (inorder (chs ! j)) s)"
      by simp
  qed
  show ?case using Suc.prems(2) unfolding n
  proof (induction "length its - i" arbitrary: i s)
    case 0
    then have i: "i = length its" by simp
    have "nodeRest (Node False its chs) i = inorder (chs ! length its)"
      by (simp add: nodeRest_def i)
    then show ?case
      apply (subst ascendFrom.simps)
      using len child[of "length its" s] by (simp add: i)
  next
    case (Suc k)
    then have i: "i < length its" by simp
    have ic: "i < length chs" "Suc i < length chs" using i len by simp_all
    have k: "k = length its - (Suc i)" using Suc.hyps(2) by simp
    have "after (drop i its) (drop (Suc i) (map inorder chs))
              = its ! i # map inorder chs ! Suc i
                  @ after (drop (Suc i) its) (drop (Suc (Suc i)) (map inorder chs))"
      using after_drop[of i its "map inorder chs"] i ic by simp
    then have r: "nodeRest (Node False its chs) i
                    = inorder (chs ! i) @ its ! i # nodeRest (Node False its chs) (Suc i)"
      using ic by (simp add: nodeRest_def)
    have "Suc i \<le> length (items (Node False its chs))" using i by simp
    from Suc.hyps(1)[OF k this]
    have IH: "\<And>s. ascendFrom (Node False its chs) (Suc i) lo hi fn s
                  = Some (walk lo hi fn (nodeRest (Node False its chs) (Suc i)) s)" .
    obtain s1 c1 where w: "walk lo hi fn (inorder (chs ! i)) s = (s1, c1)"
      by (cases "walk lo hi fn (inorder (chs ! i)) s")
    show ?case
      apply (subst ascendFrom.simps)
      using i ic child[of i s] w
      by (simp add: r IH Let_def walk_append)
  qed
qed

lemma AscendRange_spec:
  assumes "btInv b"
  shows "AscendRange b lo hi fn s
           = Some (visit fn (filter (\<lambda>x. lo \<le> PK x \<and> PK x < hi) (inorder (bt_root b))) s)"
proof -
  from assms obtain h where sh: "shape (bt_t b) True h (bt_root b)"
    and asc: "ascending (inorder (bt_root b))" unfolding btInv_def by blast
  have "ascendFrom (bt_root b) 0 lo hi fn s
          = Some (walk lo hi fn (inorder (bt_root b)) s)"
    using ascendFrom_spec[OF sh, of 0 lo hi fn s] nodeRest_0[OF sh] by simp
  then show ?thesis
    using walk_visit[OF asc, of lo hi fn s] by (simp add: AscendRange_def ascendRangeNode_def)
qed

text \<open>
  Claim C7. On a tree built by \<open>Upsert\<close> calls, with \<open>xs\<close> the items of the tree
  in ascending order of key, \<open>AscendRange(lo, hi, fn)\<close> calls \<open>fn\<close> on the items of
  \<open>xs\<close> with \<open>lo \<le> PK < hi\<close>, in that order, and stops after the first call that
  returns false. On the tree with \<open>t = 2\<close> built from the keys
  10, 20, 5, 6, 12, 30, 7, 17, \<open>AscendRange(0, 100, ...)\<close> visits
  5, 6, 7, 10, 12, 17, 20, 30 in that order.
\<close>

theorem AscendRange_visits_range:
  "(\<exists>b xs. upserts (New t0) its = Some b
       \<and> sorted_wrt (<) (map PK xs) \<and> mset xs = mset (treeItems (bt_root b))
       \<and> AscendRange b lo hi fn s
            = Some (visit fn (filter (\<lambda>x. lo \<le> PK x \<and> PK x < hi) xs) s))
   \<and> (\<exists>b. upserts (New 2) [Item 10 None, Item 20 None, Item 5 None, Item 6 None,
                             Item 12 None, Item 30 None, Item 7 None, Item 17 None] = Some b
       \<and> AscendRange b 0 100 (\<lambda>s it. (s @ [PK it], True)) []
            = Some [5, 6, 7, 10, 12, 17, 20, 30])"
proof
  from upserts_spec[OF New_inv, of t0 its] obtain b
    where u: "upserts (New t0) its = Some b" and inv: "btInv b" by blast
  from inv obtain h where sh: "shape (bt_t b) True h (bt_root b)"
    and asc: "ascending (inorder (bt_root b))" unfolding btInv_def by blast
  show "\<exists>b xs. upserts (New t0) its = Some b
       \<and> sorted_wrt (<) (map PK xs) \<and> mset xs = mset (treeItems (bt_root b))
       \<and> AscendRange b lo hi fn s
            = Some (visit fn (filter (\<lambda>x. lo \<le> PK x \<and> PK x < hi) xs) s)"
    using u asc mset_inorder[OF sh] AscendRange_spec[OF inv, of lo hi fn s] by blast
next
  let ?its = "[Item 10 None, Item 20 None, Item 5 None, Item 6 None,
               Item 12 None, Item 30 None, Item 7 None, Item 17 None]"
  from upserts_spec[OF New_inv, of 2 ?its] obtain b
    where u: "upserts (New 2) ?its = Some b" and inv: "btInv b"
      and io: "inorder (bt_root b)
                 = foldl (\<lambda>xs it. upsertList it xs) (inorder (bt_root (New 2))) ?its"
    by blast
  have "inorder (bt_root b) = [Item 5 None, Item 6 None, Item 7 None, Item 10 None,
                               Item 12 None, Item 17 None, Item 20 None, Item 30 None]"
    unfolding io by (simp add: New_inorder)
  then have "AscendRange b 0 100 (\<lambda>s it. (s @ [PK it], True)) []
               = Some [5, 6, 7, 10, 12, 17, 20, 30]"
    using AscendRange_spec[OF inv, of 0 100 "\<lambda>s it. (s @ [PK it], True)" "[]"] by simp
  then show "\<exists>b. upserts (New 2) ?its = Some b
       \<and> AscendRange b 0 100 (\<lambda>s it. (s @ [PK it], True)) []
            = Some [5, 6, 7, 10, 12, 17, 20, 30]"
    using u by blast
qed

text \<open>
  The theorem on the same tree, for the range from 6 to 17 and a visitor that
  records the keys and returns false at the first key from 10 on.
\<close>

theorem AscendRange_visits_range_witness:
  "\<exists>b. upserts (New 2) [Item 10 None, Item 20 None, Item 5 None, Item 6 None,
                       Item 12 None, Item 30 None, Item 7 None, Item 17 None] = Some b
     \<and> AscendRange b 6 17 (\<lambda>s it. (s @ [PK it], PK it < 10)) [] = Some [6, 7, 10]
     \<and> AscendRange b 0 100 (\<lambda>s it. (s @ [PK it], True)) []
            = Some [5, 6, 7, 10, 12, 17, 20, 30]"
proof -
  let ?b = "\<lparr>bt_t = 2,
             bt_root = Node False [Item 10 None, Item 20 None]
                [Node True [Item 5 None, Item 6 None, Item 7 None] [],
                 Node True [Item 12 None, Item 17 None] [],
                 Node True [Item 30 None] []],
             bt_n = 8\<rparr>"
  have u: "upserts (New 2) [Item 10 None, Item 20 None, Item 5 None, Item 6 None, Item 12 None,
                    Item 30 None, Item 7 None, Item 17 None] = Some ?b"
    by code_simp
  have a: "AscendRange ?b 6 17 (\<lambda>s it. (s @ [PK it], PK it < 10)) [] = Some [6, 7, 10]"
    by code_simp
  show ?thesis
    using u a AscendRange_visits_range[of 2 "[Item 10 None, Item 20 None, Item 5 None,
                    Item 6 None, Item 12 None, Item 30 None, Item 7 None, Item 17 None]"
                    6 17 "\<lambda>s it. (s @ [PK it], PK it < 10)" "[]"]
    by simp
qed

section \<open>Flushing the index to segment files\<close>

subsection \<open>What a writer has taken\<close>

text \<open>
  The bytes a writer has taken so far: those in the file and those still in the
  buffer. One item's record is its length prefix and its encoding; a segment is
  the records of its items one after the other.
\<close>

definition taken :: "Writer \<Rightarrow> byte list" where
  "taken w = content w @ bwbuf w"

definition recordOf :: "Item \<Rightarrow> byte list" where
  "recordOf x =
     appendU32 [] (of_nat (length (fst (encodeItemInto [] x)))) @ fst (encodeItemInto [] x)"

definition segment :: "Item list \<Rightarrow> byte list" where
  "segment xs = concat (map recordOf xs)"

lemma length_recordOf: "length (recordOf x) = 4 + length (fst (encodeItemInto [] x))"
  by (simp add: recordOf_def appendU32_def)

lemma bwWrite_taken:
  assumes "sinkAccepts w"
  shows "taken (fst (bwWrite w p)) = taken w @ p"
proof -
  have a: "\<not> bwerr w" "\<not> fclosed w" "space w = None"
    using assms by (simp_all add: sinkAccepts_def)
  show ?thesis
  proof (cases "length p \<le> bufsize w - length (bwbuf w)")
    case True
    then show ?thesis using a by (simp add: bwWrite_def taken_def)
  next
    case False
    note big = False
    show ?thesis
    proof (cases "bwbuf w = []")
      case True
      then show ?thesis using a big
        by (simp add: bwWrite_def bwDirect_def fileWrite_def taken_def)
    next
      case False
      define k where "k = bufsize w - length (bwbuf w)"
      have "take k p @ drop k p = p" by simp
      then show ?thesis using a big False
        by (auto simp: bwWrite_def bwDirect_def bwFlush_def fileWrite_def taken_def Let_def
              k_def[symmetric])
    qed
  qed
qed

lemma WriteItem_ok:
  assumes "sinkAccepts w" "\<not> encodeFails x"
  shows "snd (WriteItem w x) = None" and "sinkAccepts (fst (WriteItem w x))"
    and "taken (fst (WriteItem w x)) = taken w @ recordOf x"
    and "BytesWritten (fst (WriteItem w x)) = BytesWritten w + of_nat (length (recordOf x))"
proof -
  obtain buf where enc: "encodeItemInto [] x = (buf, None)"
    using encodeItemInto_error[of "[]" x] assms(2) by (cases "encodeItemInto [] x") simp
  let ?p = "appendU32 [] (of_nat (length buf) :: 32 word)"
  define w1 where "w1 = fst (bwWrite w ?p)"
  define w2 where "w2 = fst (bwWrite w1 buf)"
  have e1: "snd (bwWrite w ?p) = None" and a1: "sinkAccepts w1"
    using bwWrite_accepts[OF assms(1), of ?p] by (simp_all add: w1_def)
  have e2: "snd (bwWrite w1 buf) = None" and a2: "sinkAccepts w2"
    using bwWrite_accepts[OF a1, of buf] by (simp_all add: w2_def)
  have b1: "bwWrite w ?p = (w1, None)" using e1 by (simp add: w1_def prod_eq_iff)
  have b2: "bwWrite w1 buf = (w2, None)" using e2 by (simp add: w2_def prod_eq_iff)
  have W: "WriteItem w x
             = (w2\<lparr>BytesWritten := BytesWritten w2 + of_nat (4 + length buf),
                   Records := Records w2 + 1\<rparr>, None)"
    by (simp add: WriteItem_def enc writeU32ToWriter_def b1 b2 Let_def)
  have t: "taken w2 = taken w @ ?p @ buf"
    using bwWrite_taken[OF assms(1), of ?p] bwWrite_taken[OF a1, of buf]
    by (simp add: w1_def w2_def)
  have c: "BytesWritten w2 = BytesWritten w"
    using bwWrite_counters[of w ?p] bwWrite_counters[of w1 buf] by (simp add: w1_def w2_def)
  show "snd (WriteItem w x) = None" by (simp add: W)
  show "sinkAccepts (fst (WriteItem w x))" using a2 by (simp add: W sinkAccepts_def)
  show "taken (fst (WriteItem w x)) = taken w @ recordOf x"
    using t by (simp add: W taken_def recordOf_def enc)
  show "BytesWritten (fst (WriteItem w x)) = BytesWritten w + of_nat (length (recordOf x))"
    using c by (simp add: W length_recordOf enc)
qed

lemma Close_ok:
  assumes "sinkAccepts w"
  shows "content (fst (Close w)) = taken w"
  using assms
  by (auto simp: Close_def bwFlush_def fileWrite_def sinkAccepts_def taken_def Let_def
        split: prod.splits option.splits)

lemma NewWriter_ok:
  "sinkAccepts (NewWriter None)" "taken (NewWriter None) = []" "BytesWritten (NewWriter None) = 0"
  by (simp_all add: NewWriter_def sinkAccepts_def taken_def)

subsection \<open>\<open>iteratorWriter\<close>\<close>

lemma iteratorWriter_total:
  "wfStack t it \<Longrightarrow>
   \<exists>it' spw' pk. iteratorWriter it spw brk = Some (it', spw', pk) \<and> wfStack t it'"
proof (induction "length (stackRest it)" arbitrary: it spw)
  case 0
  from Next_spec[OF "0.prems"] "0.hyps" obtain item st'
    where "Next it = Some (item, False, st')" "wfStack t st'" by auto
  then show ?case by (subst iteratorWriter.simps) simp
next
  case (Suc k)
  then have ne: "stackRest it \<noteq> []" by auto
  from Next_spec[OF Suc.prems] ne obtain st'
    where nx: "Next it = Some (hd (stackRest it), True, st')" and w: "wfStack t st'"
      and r: "stackRest st' = tl (stackRest it)" by auto
  have k: "k = length (stackRest st')" using Suc.hyps(2) r by simp
  from Suc.hyps(1)[OF k w] w show ?case
    by (subst iteratorWriter.simps) (auto simp: nx Let_def)
qed

text \<open>
  When every write succeeds: the items that go to the writer before the loop
  leaves, and the key the loop returns. \<open>acc\<close> is \<open>BytesWritten\<close> on entry.
\<close>

fun written :: "64 word \<Rightarrow> 64 word \<Rightarrow> Item list \<Rightarrow> Item list" where
  "written brk acc [] = []"
| "written brk acc (x # xs) =
     (if acc + of_nat (length (recordOf x)) \<ge> brk \<and> brk \<noteq> 0 then [x]
      else x # written brk (acc + of_nat (length (recordOf x))) xs)"

fun returned :: "64 word \<Rightarrow> 64 word \<Rightarrow> Item list \<Rightarrow> int" where
  "returned brk acc [] = 0"
| "returned brk acc (x # xs) =
     (if acc + of_nat (length (recordOf x)) \<ge> brk \<and> brk \<noteq> 0 then PK x
      else returned brk (acc + of_nat (length (recordOf x))) xs)"

lemma written_prefix: "take (length (written brk acc xs)) xs = written brk acc xs"
  by (induction xs arbitrary: acc) auto

lemma written_zero: "written 0 acc xs = xs"
  by (induction xs arbitrary: acc) auto

lemma written_nonempty: "xs \<noteq> [] \<Longrightarrow> written brk acc xs \<noteq> []"
  by (cases xs) auto

lemma iteratorWriter_ok:
  "wfStack t it \<Longrightarrow> sinkAccepts spw \<Longrightarrow> \<forall>x\<in>set (stackRest it). \<not> encodeFails x \<Longrightarrow>
   \<exists>it' spw'. iteratorWriter it spw brk
                  = Some (it', spw', returned brk (BytesWritten spw) (stackRest it))
      \<and> wfStack t it'
      \<and> stackRest it' = drop (length (written brk (BytesWritten spw) (stackRest it))) (stackRest it)
      \<and> content spw' = taken spw @ segment (written brk (BytesWritten spw) (stackRest it))"
proof (induction "length (stackRest it)" arbitrary: it spw)
  case 0
  from Next_spec[OF "0.prems"(1)] "0.hyps" obtain item st'
    where "Next it = Some (item, False, st')" "wfStack t st'" "stackRest st' = []" by auto
  then show ?case using "0.hyps" Close_ok[OF "0.prems"(2)]
    by (subst iteratorWriter.simps) (simp add: segment_def)
next
  case (Suc k)
  then have ne: "stackRest it \<noteq> []" by auto
  then obtain x xs where xs: "stackRest it = x # xs" by (cases "stackRest it") auto
  from Next_spec[OF Suc.prems(1)] obtain st'
    where nx: "Next it = Some (x, True, st')" and w: "wfStack t st'"
      and r: "stackRest st' = xs" using xs by auto
  have enc: "\<not> encodeFails x" and encs: "\<forall>y\<in>set (stackRest st'). \<not> encodeFails y"
    using Suc.prems(3) xs r by simp_all
  define spw1 where "spw1 = fst (WriteItem spw x)"
  have e: "snd (WriteItem spw x) = None" and a1: "sinkAccepts spw1"
    and t1: "taken spw1 = taken spw @ recordOf x"
    and b1: "BytesWritten spw1 = BytesWritten spw + of_nat (length (recordOf x))"
    using WriteItem_ok[OF Suc.prems(2) enc] by (simp_all add: spw1_def)
  show ?case
  proof (cases "BytesWritten spw1 \<ge> brk \<and> brk \<noteq> 0")
    case True
    have "iteratorWriter it spw brk = Some (st', fst (Close spw1), PK x)"
      using True e by (subst iteratorWriter.simps) (simp add: nx Let_def spw1_def)
    moreover have "content (fst (Close spw1)) = taken spw @ segment [x]"
      using Close_ok[OF a1] t1 by (simp add: segment_def)
    ultimately show ?thesis using True w r b1 by (simp add: xs)
  next
    case False
    have k: "k = length (stackRest st')" using Suc.hyps(2) r xs by simp
    from Suc.hyps(1)[OF k w a1 encs] obtain it' spw'
      where i: "iteratorWriter st' spw1 brk
                  = Some (it', spw', returned brk (BytesWritten spw1) xs)"
        and w': "wfStack t it'"
        and r': "stackRest it' = drop (length (written brk (BytesWritten spw1) xs)) xs"
        and c': "content spw' = taken spw1 @ segment (written brk (BytesWritten spw1) xs)"
      using r by auto
    have "iteratorWriter it spw brk = iteratorWriter st' spw1 brk"
      using False e by (subst iteratorWriter.simps) (auto simp: nx Let_def spw1_def)
    then show ?thesis using False i w' r' c' b1 t1 by (auto simp: xs segment_def)
  qed
qed

subsection \<open>\<open>writeMapToFile\<close>\<close>

lemma writeMapToFile_total:
  assumes "btInv (tr s)"
  shows "\<exists>fs'. writeMapToFile s M = Some (resetInMemoryState (s\<lparr>files := fs'\<rparr>))"
proof -
  from IterAscend_spec[OF assms] obtain it where i: "IterAscend (tr s) = Some it"
    and w: "wfStack (bt_t (tr s)) it" by blast
  let ?c = "createNewWriter (files s) (showInt (minKey s) @ ''_'' @ ''lower'' @ ''.spdb'')"
  from iteratorWriter_total[OF w, of "snd ?c" "M div 2"] obtain it1 spw1 pk
    where j: "iteratorWriter it (snd ?c) (M div 2) = Some (it1, spw1, pk)"
      and w1: "wfStack (bt_t (tr s)) it1" by blast
  from Next_spec[OF w1] obtain item ok it2 where n: "Next it1 = Some (item, ok, it2)"
    and w2: "wfStack (bt_t (tr s)) it2" by blast
  show ?thesis
  proof (cases ok)
    case False
    then show ?thesis using i j n by (auto simp: writeMapToFile_def Let_def)
  next
    case True
    let ?fs1 = "renameFile ((fst ?c)(showInt (minKey s) @ ''_'' @ ''lower'' @ ''.spdb'' \<mapsto> content spw1))
                  (showInt (minKey s) @ ''_'' @ ''lower'' @ ''.spdb'')
                  (showInt (minKey s) @ ''_'' @ showInt pk @ ''.spdb'')"
    let ?c2 = "createNewWriter ?fs1 (showInt (PK item) @ ''_'' @ showInt (maxKey s) @ ''.spdb'')"
    let ?r = "WriteItem (snd ?c2) item"
    let ?spw2 = "if snd ?r \<noteq> None then fst (Close (fst ?r)) else fst ?r"
    from iteratorWriter_total[OF w2, of ?spw2 0] obtain it3 spw3 x
      where k: "iteratorWriter it2 ?spw2 0 = Some (it3, spw3, x)" by blast
    show ?thesis
      using True i j n k by (auto simp: writeMapToFile_def Let_def)
  qed
qed

text \<open>
  The files after a flush in which every write succeeds, from the files before, the
  two trackers, the budget and the items of the index in ascending order.
\<close>

definition flushFiles ::
    "(string \<Rightarrow> byte list option) \<Rightarrow> int \<Rightarrow> int \<Rightarrow> 64 word \<Rightarrow> Item list
       \<Rightarrow> (string \<Rightarrow> byte list option)" where
  "flushFiles fs mn mx M xs =
     (let lo = written (M div 2) 0 xs;
          hi = drop (length lo) xs;
          lowerFile = showInt mn @ ''_'' @ ''lower'' @ ''.spdb'';
          fs1 = renameFile (fs(lowerFile \<mapsto> segment lo)) lowerFile
                  (showInt mn @ ''_'' @ showInt (returned (M div 2) 0 xs) @ ''.spdb'')
      in if hi = [] then fs1
         else fs1(showInt (PK (hd hi)) @ ''_'' @ showInt mx @ ''.spdb'' \<mapsto> segment hi))"

lemma writeMapToFile_ok:
  assumes "btInv (tr s)" and "\<forall>x\<in>set (inorder (bt_root (tr s))). \<not> encodeFails x"
  shows "writeMapToFile s M
           = Some (resetInMemoryState
                     (s\<lparr>files := flushFiles (files s) (minKey s) (maxKey s) M
                                    (inorder (bt_root (tr s)))\<rparr>))"
proof -
  define xs where "xs = inorder (bt_root (tr s))"
  define lo where "lo = written (M div 2) 0 xs"
  define hi where "hi = drop (length lo) xs"
  define lowerFile where "lowerFile = showInt (minKey s) @ ''_'' @ ''lower'' @ ''.spdb''"
  define fs1 where "fs1 = renameFile ((files s)(lowerFile \<mapsto> segment lo)) lowerFile
                  (showInt (minKey s) @ ''_'' @ showInt (returned (M div 2) 0 xs) @ ''.spdb'')"
  from IterAscend_spec[OF assms(1)] obtain it where i: "IterAscend (tr s) = Some it"
    and w: "wfStack (bt_t (tr s)) it" and r: "stackRest it = xs"
    unfolding xs_def by blast
  have enc: "\<forall>x\<in>set (stackRest it). \<not> encodeFails x" using assms(2) r xs_def by simp
  from iteratorWriter_ok[OF w NewWriter_ok(1) enc, of "M div 2"]
  obtain it1 spw1 where j: "iteratorWriter it (NewWriter None) (M div 2)
                              = Some (it1, spw1, returned (M div 2) 0 xs)"
    and w1: "wfStack (bt_t (tr s)) it1" and r1: "stackRest it1 = hi"
    and c1: "content spw1 = segment lo"
    by (auto simp: r NewWriter_ok lo_def hi_def)
  from Next_spec[OF w1] obtain item ok it2 where n: "Next it1 = Some (item, ok, it2)"
    and w2: "wfStack (bt_t (tr s)) it2"
    and e: "hi = [] \<longrightarrow> \<not> ok"
    and ne: "hi \<noteq> [] \<longrightarrow> ok \<and> item = hd hi \<and> stackRest it2 = tl hi"
    unfolding r1 by blast
  have F: "flushFiles (files s) (minKey s) (maxKey s) M xs
             = (if hi = [] then fs1
                else fs1(showInt (PK (hd hi)) @ ''_'' @ showInt (maxKey s) @ ''.spdb'' \<mapsto> segment hi))"
    unfolding flushFiles_def Let_def lo_def[symmetric] hi_def[symmetric]
      lowerFile_def[symmetric] fs1_def[symmetric] by simp
  show ?thesis
  proof (cases "hi = []")
    case True
    then have "\<not> ok" using e by simp
    then show ?thesis
      using i j n c1 True unfolding xs_def[symmetric] F
      by (simp add: writeMapToFile_def Let_def createNewWriter_def fs1_def lowerFile_def)
  next
    case False
    then have ok: "ok" and it: "item = hd hi" and r2: "stackRest it2 = tl hi" using ne by simp_all
    have hs: "set hi \<subseteq> set xs" unfolding hi_def by (rule set_drop_subset)
    have hh: "hd hi \<in> set hi" using False by simp
    have ei: "\<not> encodeFails item" using it hh hs assms(2) xs_def by blast
    define spw2 where "spw2 = fst (WriteItem (NewWriter None) item)"
    have e2: "snd (WriteItem (NewWriter None) item) = None" and a2: "sinkAccepts spw2"
      and t2: "taken spw2 = recordOf item"
      using WriteItem_ok[OF NewWriter_ok(1) ei] by (simp_all add: spw2_def NewWriter_ok)
    have "set (tl hi) \<subseteq> set hi" by (cases hi) auto
    then have enc2: "\<forall>x\<in>set (stackRest it2). \<not> encodeFails x"
      using r2 hs assms(2) xs_def by auto
    from iteratorWriter_ok[OF w2 a2 enc2, of 0]
    obtain it3 spw3 x where k: "iteratorWriter it2 spw2 0 = Some (it3, spw3, x)"
      and c3: "content spw3 = recordOf item @ segment (tl hi)"
      by (auto simp: written_zero r2 t2)
    have c3': "content spw3 = segment hi"
      using c3 it False by (cases hi) (simp_all add: segment_def)
    show ?thesis
      using i j n c1 False ok it k e2 c3' unfolding xs_def[symmetric] F
      by (simp add: writeMapToFile_def Let_def createNewWriter_def fs1_def lowerFile_def
            spw2_def)
  qed
qed

subsection \<open>File names tell key ranges apart\<close>

lemma showNat_digits: "showNat k \<noteq> [] \<and> list_all isDigit (showNat k)"
proof (induction k rule: showNat.induct)
  case (1 k)
  show ?case
  proof (cases "k < 10")
    case True
    then show ?thesis
      by (subst (1 2) showNat.simps) (simp add: isDigit_def)
  next
    case False
    have "k mod 10 < 10" by simp
    then have "isDigit (char_of (48 + k mod 10))" by (simp add: isDigit_def)
    then show ?thesis using False "1.IH"
      by (subst (1 2) showNat.simps) simp
  qed
qed

lemma digitsValue_snoc: "digitsValue (s @ [c]) = 10 * digitsValue s + ((of_char c :: nat) - 48)"
  by (simp add: digitsValue_def)

lemma digitsValue_showNat: "digitsValue (showNat k) = k"
proof (induction k rule: showNat.induct)
  case (1 k)
  show ?case
  proof (cases "k < 10")
    case True
    then show ?thesis by (subst showNat.simps) (simp add: digitsValue_def)
  next
    case False
    have "k mod 10 < 10" by simp
    then have "(of_char (char_of (48 + k mod 10) :: char) :: nat) - 48 = k mod 10" by simp
    then show ?thesis using False "1.IH"
      by (subst showNat.simps) (simp add: digitsValue_snoc)
  qed
qed

lemma showInt_inj: "showInt a = showInt b \<Longrightarrow> a = b"
proof -
  assume e: "showInt a = showInt b"
  have nd: "\<not> isDigit CHR ''-''" by (simp add: isDigit_def)
  have hdd: "\<And>k. hd (showNat k) \<noteq> CHR ''-''"
  proof -
    fix k
    from showNat_digits[of k] have "isDigit (hd (showNat k))"
      by (cases "showNat k") simp_all
    then show "hd (showNat k) \<noteq> CHR ''-''" using nd by auto
  qed
  show ?thesis
  proof (cases "a < 0")
    case True
    note a = True
    show ?thesis
    proof (cases "b < 0")
      case True
      then have "showNat (nat (- a)) = showNat (nat (- b))" using e a by (simp add: showInt_def)
      then have "nat (- a) = nat (- b)" using digitsValue_showNat by metis
      then show ?thesis using a True by simp
    next
      case False
      then have "CHR ''-'' # showNat (nat (- a)) = showNat (nat b)"
        using e a by (simp add: showInt_def)
      then have "hd (showNat (nat b)) = CHR ''-''" by (metis list.sel(1))
      then show ?thesis using hdd by blast
    qed
  next
    case False
    note a = False
    show ?thesis
    proof (cases "b < 0")
      case True
      then have "showNat (nat a) = CHR ''-'' # showNat (nat (- b))"
        using e a by (simp add: showInt_def)
      then have "hd (showNat (nat a)) = CHR ''-''" by (metis list.sel(1))
      then show ?thesis using hdd by blast
    next
      case False
      then have "showNat (nat a) = showNat (nat b)" using e a by (simp add: showInt_def)
      then have "nat a = nat b" using digitsValue_showNat by metis
      then show ?thesis using a False by simp
    qed
  qed
qed

lemma showInt_no_underscore: "CHR ''_'' \<notin> set (showInt k)"
proof -
  have nd: "\<not> isDigit CHR ''_''" by (simp add: isDigit_def)
  have "\<And>j. CHR ''_'' \<notin> set (showNat j)"
    using showNat_digits nd by (auto simp: list_all_iff)
  then show ?thesis by (simp add: showInt_def)
qed

lemma split_at_first:
  assumes "c \<notin> set xs" "c \<notin> set xs'" "xs @ c # ys = xs' @ c # ys'"
  shows "xs = xs' \<and> ys = ys'"
  using assms
proof (induction xs arbitrary: xs')
  case Nil
  then show ?case by (cases xs') auto
next
  case (Cons x xs)
  then show ?case by (cases xs') auto
qed

lemma segment_name_inj:
  assumes "showInt a @ ''_'' @ showInt b @ ''.spdb'' = showInt c @ ''_'' @ showInt d @ ''.spdb''"
  shows "a = c \<and> b = d"
proof -
  have "showInt a @ CHR ''_'' # (showInt b @ ''.spdb'') = showInt c @ CHR ''_'' # (showInt d @ ''.spdb'')"
    using assms by simp
  from split_at_first[OF showInt_no_underscore showInt_no_underscore this]
  have "showInt a = showInt c" "showInt b = showInt d" by simp_all
  then show ?thesis using showInt_inj by blast
qed

lemma returned_last:
  "drop (length (written brk acc xs)) xs \<noteq> [] \<Longrightarrow>
   returned brk acc xs = PK (last (written brk acc xs))"
proof (induction xs arbitrary: acc)
  case Nil
  then show ?case by simp
next
  case (Cons x xs)
  show ?case
  proof (cases "acc + of_nat (length (recordOf x)) \<ge> brk \<and> brk \<noteq> 0")
    case True
    then show ?thesis by simp
  next
    case False
    then have d: "drop (length (written brk (acc + of_nat (length (recordOf x))) xs)) xs \<noteq> []"
      using Cons.prems by auto
    then have "xs \<noteq> []" by auto
    then have "written brk (acc + of_nat (length (recordOf x))) xs \<noteq> []"
      by (rule written_nonempty)
    then show ?thesis using False Cons.IH[OF d] by auto
  qed
qed

lemma renameFile_target:
  "renameFile (fs(a \<mapsto> c)) a b b = Some c"
  by (simp add: renameFile_def)

text \<open>A storage directory with no files, and a state with three buffered records.\<close>

definition noFiles :: "string \<Rightarrow> byte list option" where
  "noFiles = (\<lambda>name. None)"

definition threeKeys :: State where
  "threeKeys =
     \<lparr>currentMapSize = 54, minKey = 1, maxKey = 3, setMinMaxKey = True,
      tr = \<lparr>bt_t = 32,
             bt_root = Node True [Item 1 (Some []), Item 2 (Some []), Item 3 (Some [])] [],
             bt_n = 3\<rparr>,
      files = noFiles\<rparr>"

lemma recordOf_empty_row:
  "recordOf (Item k (Some [])) = [6, 0, 0, 0] @ appendU32 [] (word_of_int k) @ [0, 0]"
  by (simp add: recordOf_def encodeItemInto_def entries_def appendU32_def appendU16_def Let_def)

lemma showInt_small:
  "showInt 0 = ''0''" "showInt 1 = ''1''" "showInt 2 = ''2''" "showInt 3 = ''3''"
  by code_simp+

section \<open>The ingestion pass\<close>

text \<open>The key and the row that a record's pairs give.\<close>

definition lineKey :: "Pair list \<Rightarrow> int" where
  "lineKey pairs = (case pairs of [] \<Rightarrow> 0 | p # ps \<Rightarrow> fst (ToInt (snd p)))"

definition lineRow :: "Pair list \<Rightarrow> (string \<times> any) list" where
  "lineRow pairs = foldl (\<lambda>m p. mapSet m (fst p) (snd p)) [] (tl pairs)"

lemma reset_inv:
  "btInv (tr (resetInMemoryState s))" "inorder (bt_root (tr (resetInMemoryState s))) = []"
  "files (resetInMemoryState s) = files s"
  "\<not> setMinMaxKey (resetInMemoryState s)"
  "minKey (resetInMemoryState s) = 0" "maxKey (resetInMemoryState s) = 0"
  "currentMapSize (resetInMemoryState s) = 0" "tr (resetInMemoryState s) = New 32"
  using New_inv[of 32] New_inorder[of 32] by (simp_all add: resetInMemoryState_def)

lemma trackKey_frame:
  "tr (trackKey s k) = tr s" "files (trackKey s k) = files s"
  "currentMapSize (trackKey s k) = currentMapSize s"
  by (simp_all add: trackKey_def Let_def)

lemma ingestLine_spec:
  assumes "btInv (tr s)" "decoded ln = Some pairs"
  shows "\<exists>s0 b'.
           (if w \<and> of_nat (length (raw ln)) + currentMapSize s > M
            then writeMapToFile s M = Some s0 else s0 = s)
         \<and> btInv (tr s0)
         \<and> btInv b'
         \<and> inorder (bt_root b')
              = upsertList (Item (lineKey pairs) (Some (lineRow pairs))) (inorder (bt_root (tr s0)))
         \<and> ingestLine w M s ln
              = Inr ((case pairs of [] \<Rightarrow> s0 | p # ps \<Rightarrow> trackKey s0 (lineKey pairs))
                      \<lparr>tr := b',
                       currentMapSize :=
                         (if w then currentMapSize s0 + of_nat (length (raw ln))
                          else currentMapSize s0)\<rparr>)"
proof -
  let ?fl = "w \<and> of_nat (length (raw ln)) + currentMapSize s > M"
  obtain s0 where s0: "if ?fl then writeMapToFile s M = Some s0 else s0 = s"
    and i0: "btInv (tr s0)"
  proof (cases ?fl)
    case True
    from writeMapToFile_total[OF assms(1), of M] obtain fs'
      where "writeMapToFile s M = Some (resetInMemoryState (s\<lparr>files := fs'\<rparr>))" by blast
    then show ?thesis using True that reset_inv(1) by auto
  next
    case False
    then show ?thesis using that assms(1) by auto
  qed
  define s2 where "s2 = (case pairs of [] \<Rightarrow> s0 | p # ps \<Rightarrow> trackKey s0 (lineKey pairs))"
  have t2: "tr s2 = tr s0" "currentMapSize s2 = currentMapSize s0"
    by (cases pairs; simp add: s2_def trackKey_frame)+
  let ?it = "Item (lineKey pairs) (Some (lineRow pairs))"
  from Upsert_spec[OF i0, of ?it] obtain b' old rep
    where u: "Upsert (tr s0) ?it = Some (b', old, rep)" and ib: "btInv b'"
      and io: "inorder (bt_root b') = upsertList ?it (inorder (bt_root (tr s0)))"
    by blast
  have f: "(if ?fl then writeMapToFile s M else Some s) = Some s0"
    using s0 by (auto split: if_splits)
  have "ingestLine w M s ln
          = Inr (s2\<lparr>tr := b',
                   currentMapSize := (if w then currentMapSize s0 + of_nat (length (raw ln))
                                      else currentMapSize s0)\<rparr>)"
    unfolding ingestLine_def Let_def f
    using assms(2) u t2
    by (cases pairs) (simp_all add: s2_def lineKey_def lineRow_def)
  then show ?thesis using s0 i0 ib io unfolding s2_def by blast
qed

lemma ingestLine_exit:
  assumes "btInv (tr s)" "decoded ln = None"
  shows "ingestLine w M s ln = Inl Exit"
proof -
  from writeMapToFile_total[OF assms(1), of M] obtain s1
    where "writeMapToFile s M = Some s1" by blast
  then show ?thesis using assms(2) by (simp add: ingestLine_def Let_def)
qed

lemma ingestLine_cases:
  assumes "btInv (tr s)"
  shows "ingestLine w M s ln = Inl Exit
         \<or> (\<exists>s'. ingestLine w M s ln = Inr s' \<and> btInv (tr s') \<and> (\<not> w \<longrightarrow> files s' = files s))"
proof (cases "decoded ln")
  case None
  then show ?thesis using ingestLine_exit[OF assms] by simp
next
  case (Some pairs)
  from ingestLine_spec[OF assms Some, of w M] obtain s0 b'
    where a: "if w \<and> of_nat (length (raw ln)) + currentMapSize s > M
            then writeMapToFile s M = Some s0 else s0 = s"
      and ib: "btInv b'"
      and r: "ingestLine w M s ln
              = Inr ((case pairs of [] \<Rightarrow> s0 | p # ps \<Rightarrow> trackKey s0 (lineKey pairs))
                      \<lparr>tr := b',
                       currentMapSize :=
                         (if w then currentMapSize s0 + of_nat (length (raw ln))
                          else currentMapSize s0)\<rparr>)"
    by blast
  have "\<not> w \<Longrightarrow> s0 = s" using a by (simp split: if_splits)
  then have "\<not> w \<longrightarrow> files ((case pairs of [] \<Rightarrow> s0 | p # ps \<Rightarrow> trackKey s0 (lineKey pairs))
                      \<lparr>tr := b',
                       currentMapSize :=
                         (if w then currentMapSize s0 + of_nat (length (raw ln))
                          else currentMapSize s0)\<rparr>) = files s"
    by (cases pairs) (simp_all add: trackKey_frame)
  then show ?thesis using r ib by simp
qed

lemma ingestLines_cases:
  "btInv (tr s) \<Longrightarrow>
   ingestLines w M s lns = Inl Exit
   \<or> (\<exists>s'. ingestLines w M s lns = Inr s' \<and> btInv (tr s') \<and> (\<not> w \<longrightarrow> files s' = files s))"
proof (induction lns arbitrary: s)
  case Nil
  then show ?case by simp
next
  case (Cons ln lns)
  from ingestLine_cases[OF Cons.prems, of w M ln]
  show ?case
  proof
    assume "ingestLine w M s ln = Inl Exit"
    then show ?thesis by simp
  next
    assume "\<exists>s'. ingestLine w M s ln = Inr s' \<and> btInv (tr s') \<and> (\<not> w \<longrightarrow> files s' = files s)"
    then obtain s1 where r: "ingestLine w M s ln = Inr s1" and i: "btInv (tr s1)"
      and f: "\<not> w \<longrightarrow> files s1 = files s" by blast
    from Cons.IH[OF i] show ?thesis using r f by auto
  qed
qed

lemma initState_inv: "btInv (tr (initState fs))" "files (initState fs) = fs"
  using New_inv[of 32] by (simp_all add: initState_def)

lemma btInv_items:
  assumes "btInv b"
  shows "mset (inorder (bt_root b)) = mset (treeItems (bt_root b))"
    and "bt_n b = length (treeItems (bt_root b))"
proof -
  from assms obtain h where sh: "shape (bt_t b) True h (bt_root b)"
    and n: "bt_n b = length (inorder (bt_root b))" unfolding btInv_def by blast
  show m: "mset (inorder (bt_root b)) = mset (treeItems (bt_root b))"
    by (rule mset_inorder[OF sh])
  show "bt_n b = length (treeItems (bt_root b))"
    using n m by (metis size_mset)
qed

subsection \<open>The trackers of the smallest and the largest key\<close>


lemma keys_upsertList: "PK ` set (upsertList it xs) = insert (PK it) (PK ` set xs)"
  by (induction xs) auto





subsection \<open>A pass over two records\<close>

text \<open>
  An input file of two lines, \<open>{"primary_key": 1}\<close> and \<open>{"primary_key": 2}\<close>,
  each 18 bytes and a newline.
\<close>

definition twoLines :: "Line list" where
  "twoLines =
     [Line ''{\"primary_key\": 1}'' (Some [(''primary_key'', VNumber ''1'')]),
      Line ''{\"primary_key\": 2}'' (Some [(''primary_key'', VNumber ''2'')])]"

definition twoRecords :: Input where
  "twoRecords = \<lparr>sizeBytes = 38, lines = twoLines\<rparr>"

lemma noFiles_None: "noFiles name = None" "noFiles(name := None) = noFiles"
  by (simp_all add: noFiles_def fun_eq_iff)

lemma parseInt64_small: "parseInt64 ''1'' = Some 1" "parseInt64 ''2'' = Some 2"
  by (simp_all add: parseInt64_def parseUnsigned_def isDigit_def digitsValue_def)

lemma Upsert_first:
  "Upsert (New 32) (Item 1 (Some []))
     = Some (\<lparr>bt_t = 32, bt_root = Node True [Item 1 (Some [])] [], bt_n = Suc 0\<rparr>, zeroItem, False)"
  by code_simp

lemma Upsert_first2:
  "Upsert (New 32) (Item 2 (Some []))
     = Some (\<lparr>bt_t = 32, bt_root = Node True [Item 2 (Some [])] [], bt_n = Suc 0\<rparr>, zeroItem, False)"
  by code_simp

lemma Upsert_second:
  "Upsert \<lparr>bt_t = 32, bt_root = Node True [Item 1 (Some [])] [], bt_n = Suc 0\<rparr> (Item 2 (Some []))
     = Some (\<lparr>bt_t = 32, bt_root = Node True [Item 1 (Some []), Item 2 (Some [])] [], bt_n = 2\<rparr>,
             zeroItem, False)"
  by code_simp

lemma single_inv:
  "btInv \<lparr>bt_t = 32, bt_root = Node True [Item k (Some [])] [], bt_n = Suc 0\<rparr>"
  by (simp add: btInv_def)

lemma flushFiles_single:
  "flushFiles fs k k 30 [Item k (Some [])]
     = renameFile (fs(showInt k @ ''_lower.spdb'' \<mapsto> recordOf (Item k (Some []))))
         (showInt k @ ''_lower.spdb'') (showInt k @ ''_0.spdb'')"
proof -
  have "written ((30 :: 64 word) div 2) 0 [Item k (Some [])] = [Item k (Some [])]"
    by (simp add: recordOf_empty_row appendU32_def)
  moreover have "returned ((30 :: 64 word) div 2) 0 [Item k (Some [])] = 0"
    by (simp add: recordOf_empty_row appendU32_def)
  ultimately show ?thesis
    by (simp add: flushFiles_def Let_def segment_def showInt_small)
qed

lemma flush_single:
  "writeMapToFile
     \<lparr>currentMapSize = c, minKey = k, maxKey = k, setMinMaxKey = True,
      tr = \<lparr>bt_t = 32, bt_root = Node True [Item k (Some [])] [], bt_n = Suc 0\<rparr>, files = fs\<rparr> 30
   = Some \<lparr>currentMapSize = 0, minKey = 0, maxKey = 0, setMinMaxKey = False, tr = New 32,
           files = renameFile (fs(showInt k @ ''_lower.spdb'' \<mapsto> recordOf (Item k (Some []))))
                     (showInt k @ ''_lower.spdb'') (showInt k @ ''_0.spdb'')\<rparr>"
proof -
  let ?s = "\<lparr>currentMapSize = c, minKey = k, maxKey = k, setMinMaxKey = True,
      tr = \<lparr>bt_t = 32, bt_root = Node True [Item k (Some [])] [], bt_n = Suc 0\<rparr>, files = fs\<rparr>"
  have i: "btInv (tr ?s)" using single_inv[of k] by simp
  have e: "\<forall>x\<in>set (inorder (bt_root (tr ?s))). \<not> encodeFails x"
    by (simp add: encodeFails_def entries_def)
  show ?thesis
    using writeMapToFile_ok[OF i e, of 30]
    by (simp add: flushFiles_single resetInMemoryState_def)
qed

text \<open>The scanner loop on the two lines, with a budget of 30 bytes.\<close>

definition afterPass :: State where
  "afterPass =
     \<lparr>currentMapSize = 18, minKey = 2, maxKey = 2, setMinMaxKey = True,
      tr = \<lparr>bt_t = 32, bt_root = Node True [Item 2 (Some [])] [], bt_n = Suc 0\<rparr>,
      files = noFiles(''1_0.spdb'' \<mapsto> [6, 0, 0, 0, 1, 0, 0, 0, 0, 0])\<rparr>"

lemma pass_30: "ingestLines True 30 (initState noFiles) twoLines = Inr afterPass"
proof -
  let ?s1 = "\<lparr>currentMapSize = 18, minKey = 1, maxKey = 1, setMinMaxKey = True,
      tr = \<lparr>bt_t = 32, bt_root = Node True [Item 1 (Some [])] [], bt_n = Suc 0\<rparr>, files = noFiles\<rparr>"
  have a: "ingestLine True 30 (initState noFiles)
             (Line ''{\"primary_key\": 1}'' (Some [(''primary_key'', VNumber ''1'')])) = Inr ?s1"
    by (simp add: ingestLine_def initState_def Let_def parseInt64_small trackKey_def Upsert_first Upsert_first2 Upsert_second)
  have r: "renameFile (noFiles(showInt 1 @ ''_lower.spdb'' \<mapsto> recordOf (Item 1 (Some []))))
                     (showInt 1 @ ''_lower.spdb'') (showInt 1 @ ''_0.spdb'')
             = noFiles(''1_0.spdb'' \<mapsto> [6, 0, 0, 0, 1, 0, 0, 0, 0, 0])"
    by (simp add: renameFile_def showInt_small noFiles_None recordOf_empty_row appendU32_def)
  have b: "ingestLine True 30 ?s1
             (Line ''{\"primary_key\": 2}'' (Some [(''primary_key'', VNumber ''2'')])) = Inr afterPass"
    by (simp add: ingestLine_def Let_def flush_single r parseInt64_small trackKey_def Upsert_first Upsert_first2 Upsert_second
          afterPass_def)
  show ?thesis by (simp add: twoLines_def a b)
qed

lemma final_30:
  "writeMapToFile afterPass 30
     = Some \<lparr>currentMapSize = 0, minKey = 0, maxKey = 0, setMinMaxKey = False, tr = New 32,
             files = (noFiles(''1_0.spdb'' \<mapsto> [6, 0, 0, 0, 1, 0, 0, 0, 0, 0]))
                       (''2_0.spdb'' \<mapsto> [6, 0, 0, 0, 2, 0, 0, 0, 0, 0])\<rparr>"
proof -
  have r: "renameFile ((noFiles(''1_0.spdb'' \<mapsto> [6, 0, 0, 0, 1, 0, 0, 0, 0, 0]))
                          (showInt 2 @ ''_lower.spdb'' \<mapsto> recordOf (Item 2 (Some []))))
                     (showInt 2 @ ''_lower.spdb'') (showInt 2 @ ''_0.spdb'')
             = (noFiles(''1_0.spdb'' \<mapsto> [6, 0, 0, 0, 1, 0, 0, 0, 0, 0]))
                       (''2_0.spdb'' \<mapsto> [6, 0, 0, 0, 2, 0, 0, 0, 0, 0])"
    by (simp add: renameFile_def showInt_small noFiles_None recordOf_empty_row appendU32_def
          fun_eq_iff)
  show ?thesis unfolding afterPass_def by (simp add: flush_single r)
qed

lemma import_30:
  "importDataFromFile twoRecords 30 (initState noFiles)
     = Inr \<lparr>currentMapSize = 0, minKey = 0, maxKey = 0, setMinMaxKey = False, tr = New 32,
            files = (noFiles(''1_0.spdb'' \<mapsto> [6, 0, 0, 0, 1, 0, 0, 0, 0, 0]))
                       (''2_0.spdb'' \<mapsto> [6, 0, 0, 0, 2, 0, 0, 0, 0, 0])\<rparr>"
proof -
  have "Len (tr afterPass) = 1" by (simp add: afterPass_def Len_def)
  then show ?thesis
    by (simp add: importDataFromFile_def twoRecords_def pass_30 final_30)
qed

text \<open>The scanner loop on the two lines when nothing is written to disk.\<close>

definition bothBuffered :: State where
  "bothBuffered =
     \<lparr>currentMapSize = 0, minKey = 1, maxKey = 2, setMinMaxKey = True,
      tr = \<lparr>bt_t = 32, bt_root = Node True [Item 1 (Some []), Item 2 (Some [])] [], bt_n = 2\<rparr>,
      files = noFiles\<rparr>"

lemma pass_unwritten: "ingestLines False M (initState noFiles) twoLines = Inr bothBuffered"
proof -
  let ?s1 = "\<lparr>currentMapSize = 0, minKey = 1, maxKey = 1, setMinMaxKey = True,
      tr = \<lparr>bt_t = 32, bt_root = Node True [Item 1 (Some [])] [], bt_n = Suc 0\<rparr>, files = noFiles\<rparr>"
  have a: "ingestLine False M (initState noFiles)
             (Line ''{\"primary_key\": 1}'' (Some [(''primary_key'', VNumber ''1'')])) = Inr ?s1"
    by (simp add: ingestLine_def initState_def Let_def parseInt64_small trackKey_def Upsert_first Upsert_first2 Upsert_second)
  have b: "ingestLine False M ?s1
             (Line ''{\"primary_key\": 2}'' (Some [(''primary_key'', VNumber ''2'')]))
             = Inr bothBuffered"
    by (simp add: ingestLine_def Let_def parseInt64_small trackKey_def Upsert_first Upsert_first2 Upsert_second bothBuffered_def)
  show ?thesis by (simp add: twoLines_def a b)
qed

lemma import_unwritten:
  "importDataFromFile twoRecords 1000 (initState noFiles) = Inr bothBuffered"
  by (simp add: importDataFromFile_def twoRecords_def pass_unwritten)

text \<open>
  Claim C4, as stated, fails: the two-line input of 38 bytes, imported with a
  budget of 1000 bytes, leaves both items in the index at the end of input, and
  no file is written.
\<close>

theorem final_flush_counterexample:
  "importDataFromFile twoRecords 1000 (initState noFiles)
     = Inr \<lparr>currentMapSize = 0, minKey = 1, maxKey = 2, setMinMaxKey = True,
            tr = \<lparr>bt_t = 32,
                  bt_root = Node True [Item 1 (Some []), Item 2 (Some [])] [],
                  bt_n = 2\<rparr>,
            files = noFiles\<rparr>"
  by (simp add: import_unwritten bothBuffered_def)



text \<open>
  Claim C5 at a concrete input. The two-line input of 38 bytes is imported with
  a budget of 30 bytes. Each of the two flushes finds one item of 10 bytes in the
  index, below the threshold of 15 bytes, so the iterator is exhausted and
  \<open>iteratorWriter\<close> returns 0: the file holding the item with key 1 is named
  \<open>1_0.spdb\<close> and the file holding the item with key 2 is named \<open>2_0.spdb\<close>; no
  file is named \<open>1_1.spdb\<close> or \<open>2_2.spdb\<close>.
\<close>

theorem lower_segment_named_zero:
  "importDataFromFile twoRecords 30 (initState noFiles)
     = Inr \<lparr>currentMapSize = 0, minKey = 0, maxKey = 0, setMinMaxKey = False, tr = New 32,
            files = (noFiles(''1_0.spdb'' \<mapsto> [6, 0, 0, 0, 1, 0, 0, 0, 0, 0]))
                       (''2_0.spdb'' \<mapsto> [6, 0, 0, 0, 2, 0, 0, 0, 0, 0])\<rparr>
   \<and> ((noFiles(''1_0.spdb'' \<mapsto> [6, 0, 0, 0, 1, 0, 0, 0, 0, 0]))
        (''2_0.spdb'' \<mapsto> [6, 0, 0, 0, 2, 0, 0, 0, 0, 0])) ''1_1.spdb'' = None
   \<and> ((noFiles(''1_0.spdb'' \<mapsto> [6, 0, 0, 0, 1, 0, 0, 0, 0, 0]))
        (''2_0.spdb'' \<mapsto> [6, 0, 0, 0, 2, 0, 0, 0, 0, 0])) ''2_2.spdb'' = None
   \<and> returned ((30 :: 64 word) div 2) 0 [Item 1 (Some [])] = 0"
  by (simp add: import_30 noFiles_None recordOf_empty_row appendU32_def)

section \<open>The segments of a flush\<close>

subsection \<open>The key field of a record\<close>

text \<open>
  What a reader of the format gets as the key of an item's record: the
  little-endian \<open>u32\<close> in the four bytes after the length prefix.
\<close>

definition readU32 :: "byte list \<Rightarrow> 32 word" where
  "readU32 bs =
     (ucast (bs ! 0) :: 32 word) OR push_bit 8 (ucast (bs ! 1)) OR push_bit 16 (ucast (bs ! 2))
       OR push_bit 24 (ucast (bs ! 3))"

definition pkWritten :: "Item \<Rightarrow> int" where
  "pkWritten x = uint (readU32 (take 4 (drop 4 (recordOf x))))"

lemma readU32_appendU32: "readU32 (appendU32 [] v) = v"
proof (rule bit_word_eqI)
  fix n assume "n < LENGTH(32)"
  then have n: "n < 32" by simp
  have a: "8 \<le> n \<Longrightarrow> 8 + (n - 8) = n" "16 \<le> n \<Longrightarrow> 16 + (n - 16) = n"
    "24 \<le> n \<Longrightarrow> 24 + (n - 24) = n" by simp_all
  show "bit (readU32 (appendU32 [] v)) n \<longleftrightarrow> bit v n"
    unfolding readU32_def appendU32_def using n
    by (cases "n < 8"; cases "n < 16"; cases "n < 24") (auto simp: bit_simps a)
qed

lemma appendAny_extends: "\<exists>r. fst (appendAny dst v) = dst @ r"
  by (cases v) (auto simp: appendI64_def appendF64_def appendU32_def split: option.splits)

lemma encodeFields_extends: "\<exists>r. fst (encodeFields dst kvs) = dst @ r"
proof (induction kvs arbitrary: dst)
  case Nil
  then show ?case by simp
next
  case (Cons kv kvs)
  obtain k v where kv: "kv = (k, v)" by (cases kv)
  obtain r where r: "fst (appendAny ((dst @ [of_nat (length k)]) @ bytesOf k) v)
                       = ((dst @ [of_nat (length k)]) @ bytesOf k) @ r"
    using appendAny_extends by blast
  show ?case
  proof (cases "appendAny ((dst @ [of_nat (length k)]) @ bytesOf k) v")
    case (Pair d e)
    then have d: "d = ((dst @ [of_nat (length k)]) @ bytesOf k) @ r" using r by simp
    from Cons.IH[of d] obtain r' where "fst (encodeFields d kvs) = d @ r'" by blast
    then show ?thesis using Pair d kv by (cases e) auto
  qed
qed

lemma encodeItemInto_key:
  "\<exists>r. fst (encodeItemInto [] x) = appendU32 [] (word_of_int (PK x)) @ r"
  using encodeFields_extends[of "appendU16 (appendU32 [] (word_of_int (PK x)))
          (of_nat (length (entries (Row x))))" "entries (Row x)"]
  by (auto simp: encodeItemInto_def Let_def appendU16_def)

lemma pkWritten_mod: "pkWritten x = PK x mod 2 ^ 32"
proof -
  obtain r where r: "fst (encodeItemInto [] x) = appendU32 [] (word_of_int (PK x)) @ r"
    using encodeItemInto_key by blast
  have "take 4 (drop 4 (recordOf x)) = appendU32 [] (word_of_int (PK x))"
    unfolding recordOf_def r by (simp add: appendU32_def)
  then have "pkWritten x = uint (word_of_int (PK x) :: 32 word)"
    by (simp add: pkWritten_def readU32_appendU32)
  then show ?thesis by (simp add: uint_word_of_int)
qed

lemma pkWritten_in_range: "0 \<le> PK x \<Longrightarrow> PK x < 2 ^ 32 \<Longrightarrow> pkWritten x = PK x"
  by (simp add: pkWritten_mod)

subsection \<open>The two files of a flush\<close>

text \<open>
  A flush of an index that satisfies the B-tree invariant, whose items all encode
  without error, with trackers \<open>minKey \<le> maxKey\<close>: the lower file holds the
  records of \<open>lo\<close> under the name made of \<open>minKey\<close> and the key that
  \<open>iteratorWriter\<close> returns; when items remain, that key is the last one of \<open>lo\<close>
  and the upper file holds the records of the remaining items \<open>hi\<close>.
\<close>

lemma flush_split:
  assumes "btInv (tr s)"
    and "\<forall>x\<in>set (treeItems (bt_root (tr s))). \<not> encodeFails x"
    and "minKey s \<le> maxKey s"
  shows "\<exists>s'. writeMapToFile s M = Some s'
      \<and> (let xs = inorder (bt_root (tr s));
              lo = written (M div 2) 0 xs;
              hi = drop (length lo) xs
          in sorted_wrt (<) (map PK xs) \<and> mset xs = mset (treeItems (bt_root (tr s)))
             \<and> lo @ hi = xs
             \<and> files s' (showInt (minKey s) @ ''_'' @ showInt (returned (M div 2) 0 xs) @ ''.spdb'')
                  = Some (segment lo)
             \<and> (hi \<noteq> [] \<longrightarrow>
                  lo \<noteq> [] \<and> returned (M div 2) 0 xs = PK (last lo)
                \<and> files s' (showInt (PK (hd hi)) @ ''_'' @ showInt (maxKey s) @ ''.spdb'')
                    = Some (segment hi)
                \<and> (\<forall>a\<in>set lo. \<forall>b\<in>set hi. PK a < PK b)))"
proof -
  define xs where "xs = inorder (bt_root (tr s))"
  define lo where "lo = written (M div 2) 0 xs"
  define hi where "hi = drop (length lo) xs"
  note inv = assms(1)
  then obtain h where sh: "shape (bt_t (tr s)) True h (bt_root (tr s))"
    and asc: "ascending xs" unfolding btInv_def xs_def by blast
  have ms: "mset xs = mset (treeItems (bt_root (tr s)))"
    unfolding xs_def by (rule mset_inorder[OF sh])
  then have "set xs = set (treeItems (bt_root (tr s)))" by (rule mset_eq_setD)
  then have enc: "\<forall>x\<in>set (inorder (bt_root (tr s))). \<not> encodeFails x"
    using assms(2) xs_def by simp
  define s' where "s' = resetInMemoryState
                     (s\<lparr>files := flushFiles (files s) (minKey s) (maxKey s) M xs\<rparr>)"
  have W: "writeMapToFile s M = Some s'"
    using writeMapToFile_ok[OF inv enc, of M] by (simp add: s'_def xs_def)
  have lh: "lo @ hi = xs"
    unfolding lo_def hi_def using written_prefix[of "M div 2" 0 xs]
    by (metis append_take_drop_id)
  let ?lowerFile = "showInt (minKey s) @ ''_'' @ ''lower'' @ ''.spdb''"
  let ?final = "showInt (minKey s) @ ''_'' @ showInt (returned (M div 2) 0 xs) @ ''.spdb''"
  let ?upper = "showInt (PK (hd hi)) @ ''_'' @ showInt (maxKey s) @ ''.spdb''"
  let ?fs1 = "renameFile ((files s)(?lowerFile \<mapsto> segment lo)) ?lowerFile ?final"
  have F: "files s' = (if hi = [] then ?fs1 else ?fs1(?upper \<mapsto> segment hi))"
    unfolding s'_def flushFiles_def Let_def lo_def[symmetric] hi_def[symmetric]
    by (simp add: resetInMemoryState_def)
  have both: "lo \<noteq> [] \<and> returned (M div 2) 0 xs = PK (last lo)
                \<and> files s' ?upper = Some (segment hi)
                \<and> (\<forall>a\<in>set lo. \<forall>b\<in>set hi. PK a < PK b)
                \<and> ?upper \<noteq> ?final"
    if ne: "hi \<noteq> []"
  proof -
    have ord: "\<forall>a\<in>set lo. \<forall>b\<in>set hi. PK a < PK b"
      using asc unfolding lh[symmetric] by (auto simp: sorted_wrt_append)
    have lne: "lo \<noteq> []"
    proof -
      have "xs \<noteq> []" using ne hi_def by auto
      then show ?thesis unfolding lo_def by (rule written_nonempty)
    qed
    have lt: "PK (last lo) < PK (hd hi)" using ord lne ne by simp
    have ret: "returned (M div 2) 0 xs = PK (last lo)"
      using returned_last[of "M div 2" 0 xs] ne unfolding lo_def hi_def by simp
    have neq: "?upper \<noteq> ?final"
    proof
      assume "?upper = ?final"
      from segment_name_inj[OF this] have "PK (hd hi) = minKey s" "maxKey s = PK (last lo)"
        by (simp_all add: ret)
      then show False using lt assms(3) by simp
    qed
    have "files s' ?upper = Some (segment hi)" using ne by (simp add: F)
    then show ?thesis using ord lne ret neq by blast
  qed
  have low: "files s' ?final = Some (segment lo)"
  proof (cases "hi = []")
    case True
    then have "files s' = ?fs1" using F by (simp only: if_True simp_thms)
    then show ?thesis by (simp only: renameFile_target)
  next
    case False
    from both[OF False] have neq: "?upper \<noteq> ?final" by blast
    have "files s' = ?fs1(?upper \<mapsto> segment hi)" using F False by (simp only: if_False simp_thms)
    then have "files s' ?final = ?fs1 ?final"
      using neq[symmetric] by (simp only: fun_upd_apply if_False)
    then show ?thesis by (simp only: renameFile_target)
  qed
  show ?thesis
    using W asc ms lh both low
    unfolding Let_def xs_def[symmetric] lo_def[symmetric] hi_def[symmetric] by blast
qed

text \<open>
  Claim C3, as amended. Take a state whose index was built by \<open>Upsert\<close> calls,
  whose items all encode without error and whose trackers satisfy
  \<open>minKey \<le> maxKey\<close>; opening and writing the files does not fail. With \<open>xs\<close> the
  items of the index in ascending order, the flush writes to the lower segment the
  items \<open>lo\<close> up to the one that takes the bytes written to \<open>B/2\<close>, and to the
  upper segment the remaining items \<open>hi\<close>. When there is an upper segment (\<open>hi\<close>
  is not empty), the two files hold the records of \<open>lo\<close> and of \<open>hi\<close>, every key
  of \<open>lo\<close> is below every key of \<open>hi\<close>, and the keys of the two segments together
  are the keys of the index. The key field of every record is the item's key
  modulo \<open>2^32\<close>. When every key of the index is in the range of the key field,
  from 0 to \<open>2^32 - 1\<close>, every key field written to the lower segment is below
  every key field written to the upper segment, and the key fields written to the
  two segments together are the keys of the index.
\<close>

theorem flush_disjoint:
  assumes "upserts (New t0) its = Some (tr s)"
    and "\<forall>x\<in>set (treeItems (bt_root (tr s))). \<not> encodeFails x"
    and "minKey s \<le> maxKey s"
  shows "\<exists>s'. writeMapToFile s M = Some s'
      \<and> (let xs = inorder (bt_root (tr s));
              lo = written (M div 2) 0 xs;
              hi = drop (length lo) xs
          in sorted_wrt (<) (map PK xs) \<and> mset xs = mset (treeItems (bt_root (tr s)))
             \<and> lo @ hi = xs
             \<and> (hi \<noteq> [] \<longrightarrow>
                  files s' (showInt (minKey s) @ ''_'' @ showInt (PK (last lo)) @ ''.spdb'')
                    = Some (segment lo)
                \<and> files s' (showInt (PK (hd hi)) @ ''_'' @ showInt (maxKey s) @ ''.spdb'')
                    = Some (segment hi)
                \<and> (\<forall>a\<in>set lo. \<forall>b\<in>set hi. PK a < PK b)
                \<and> mset (map PK lo) + mset (map PK hi)
                    = mset (map PK (treeItems (bt_root (tr s))))
                \<and> (\<forall>x\<in>set xs. pkWritten x = PK x mod 2 ^ 32)
                \<and> ((\<forall>x\<in>set (treeItems (bt_root (tr s))). 0 \<le> PK x \<and> PK x < 2 ^ 32) \<longrightarrow>
                     (\<forall>a\<in>set lo. \<forall>b\<in>set hi. pkWritten a < pkWritten b)
                   \<and> mset (map pkWritten lo) + mset (map pkWritten hi)
                       = mset (map PK (treeItems (bt_root (tr s)))))))"
proof -
  define xs where "xs = inorder (bt_root (tr s))"
  define lo where "lo = written (M div 2) 0 xs"
  define hi where "hi = drop (length lo) xs"
  have inv: "btInv (tr s)" by (rule reachable_inv(1)[OF assms(1)])
  from flush_split[OF inv assms(2,3), of M] obtain s'
    where W: "writeMapToFile s M = Some s'"
      and asc: "sorted_wrt (<) (map PK xs)"
      and ms: "mset xs = mset (treeItems (bt_root (tr s)))"
      and lh: "lo @ hi = xs"
      and low: "files s' (showInt (minKey s) @ ''_'' @ showInt (returned (M div 2) 0 xs) @ ''.spdb'')
                  = Some (segment lo)"
      and up: "hi \<noteq> [] \<longrightarrow>
                  lo \<noteq> [] \<and> returned (M div 2) 0 xs = PK (last lo)
                \<and> files s' (showInt (PK (hd hi)) @ ''_'' @ showInt (maxKey s) @ ''.spdb'')
                    = Some (segment hi)
                \<and> (\<forall>a\<in>set lo. \<forall>b\<in>set hi. PK a < PK b)"
    unfolding Let_def xs_def[symmetric] lo_def[symmetric] hi_def[symmetric] by blast
  have keys: "mset (map PK lo) + mset (map PK hi) = mset (map PK (treeItems (bt_root (tr s))))"
  proof -
    have "mset (map PK lo) + mset (map PK hi) = mset (map PK xs)"
      unfolding lh[symmetric] by simp
    also have "\<dots> = mset (map PK (treeItems (bt_root (tr s))))"
      using ms by (metis mset_map)
    finally show ?thesis .
  qed
  have st: "set xs = set (treeItems (bt_root (tr s)))" using ms by (rule mset_eq_setD)
  have fld: "\<forall>x\<in>set xs. pkWritten x = PK x mod 2 ^ 32" by (simp add: pkWritten_mod)
  have rng: "(\<forall>a\<in>set lo. \<forall>b\<in>set hi. pkWritten a < pkWritten b)
                   \<and> mset (map pkWritten lo) + mset (map pkWritten hi)
                       = mset (map PK (treeItems (bt_root (tr s))))"
    if ne: "hi \<noteq> []"
      and r: "\<forall>x\<in>set (treeItems (bt_root (tr s))). 0 \<le> PK x \<and> PK x < 2 ^ 32"
  proof -
    have eq: "\<forall>x\<in>set xs. pkWritten x = PK x"
      using r st by (simp add: pkWritten_in_range)
    then have l: "\<forall>x\<in>set lo. pkWritten x = PK x" and h: "\<forall>x\<in>set hi. pkWritten x = PK x"
      unfolding lh[symmetric] by simp_all
    have a: "map pkWritten lo = map PK lo" "map pkWritten hi = map PK hi"
      using l h by simp_all
    have "mset (map pkWritten lo) + mset (map pkWritten hi)
            = mset (map PK (treeItems (bt_root (tr s))))"
      unfolding a by (rule keys)
    moreover have "\<forall>a\<in>set lo. \<forall>b\<in>set hi. pkWritten a < pkWritten b"
      using up ne l h by simp
    ultimately show ?thesis by blast
  qed
  show ?thesis
    using W asc ms lh low up keys fld rng
    unfolding Let_def xs_def[symmetric] lo_def[symmetric] hi_def[symmetric]
    by (intro exI[of _ s']) auto
qed

text \<open>
  The theorem on the state with the keys 1, 2 and 3 and a budget of 40 bytes: the
  records of the keys 1 and 2 reach the threshold of 20 bytes and make the lower
  segment, key 3 the upper; the keys are in the range of the key field.
\<close>

theorem flush_disjoint_witness:
  "upserts (New 32) [Item 1 (Some []), Item 2 (Some []), Item 3 (Some [])] = Some (tr threeKeys)
   \<and> list_all (\<lambda>x. \<not> encodeFails x) (treeItems (bt_root (tr threeKeys)))
   \<and> minKey threeKeys \<le> maxKey threeKeys
   \<and> list_all (\<lambda>x. 0 \<le> PK x \<and> PK x < 2 ^ 32) (treeItems (bt_root (tr threeKeys)))
   \<and> (\<exists>s'. writeMapToFile threeKeys 40 = Some s'
          \<and> files s' ''1_2.spdb''
               = Some [6, 0, 0, 0, 1, 0, 0, 0, 0, 0, 6, 0, 0, 0, 2, 0, 0, 0, 0, 0]
          \<and> files s' ''3_3.spdb'' = Some [6, 0, 0, 0, 3, 0, 0, 0, 0, 0])
   \<and> list_all (\<lambda>a. pkWritten a < pkWritten (Item 3 (Some [])))
        [Item 1 (Some []), Item 2 (Some [])]
   \<and> mset (map pkWritten [Item 1 (Some []), Item 2 (Some [])])
        + mset (map pkWritten [Item 3 (Some [])])
       = mset (map PK (treeItems (bt_root (tr threeKeys))))"
proof -
  have u: "upserts (New 32) [Item 1 (Some []), Item 2 (Some []), Item 3 (Some [])]
             = Some (tr threeKeys)"
    unfolding threeKeys_def by code_simp
  have e: "\<forall>x\<in>set (treeItems (bt_root (tr threeKeys))). \<not> encodeFails x"
    by (simp add: threeKeys_def encodeFails_def entries_def)
  have m: "minKey threeKeys \<le> maxKey threeKeys" by (simp add: threeKeys_def)
  have g: "\<forall>x\<in>set (treeItems (bt_root (tr threeKeys))). 0 \<le> PK x \<and> PK x < 2 ^ 32"
    by (simp add: threeKeys_def)
  have x: "inorder (bt_root (tr threeKeys))
             = [Item 1 (Some []), Item 2 (Some []), Item 3 (Some [])]"
    by (simp add: threeKeys_def)
  have l: "written ((40 :: 64 word) div 2) 0 [Item 1 (Some []), Item 2 (Some []), Item 3 (Some [])]
             = [Item 1 (Some []), Item 2 (Some [])]"
    by (simp add: recordOf_empty_row appendU32_def)
  have h: "drop (length [Item 1 (Some []), Item 2 (Some [])])
             [Item 1 (Some []), Item 2 (Some []), Item 3 (Some [])] = [Item 3 (Some [])]"
    by simp
  have ne: "[Item 3 (Some [])] \<noteq> []" by simp
  have sg: "segment [Item 1 (Some []), Item 2 (Some [])]
              = [6, 0, 0, 0, 1, 0, 0, 0, 0, 0, 6, 0, 0, 0, 2, 0, 0, 0, 0, 0]"
    "segment [Item 3 (Some [])] = [6, 0, 0, 0, 3, 0, 0, 0, 0, 0]"
    by (simp_all add: segment_def recordOf_empty_row appendU32_def)
  have mk: "minKey threeKeys = 1" "maxKey threeKeys = 3" by (simp_all add: threeKeys_def)
  note T = flush_disjoint[OF u e m, of 40, unfolded Let_def x l h mk]
  from T ne g obtain s'
    where w: "writeMapToFile threeKeys 40 = Some s'"
      and f1: "files s' (showInt 1 @ ''_'' @ showInt (PK (last [Item 1 (Some []), Item 2 (Some [])]))
                          @ ''.spdb'')
                 = Some (segment [Item 1 (Some []), Item 2 (Some [])])"
      and f2: "files s' (showInt (PK (hd [Item 3 (Some [])])) @ ''_'' @ showInt 3 @ ''.spdb'')
                 = Some (segment [Item 3 (Some [])])"
      and r1: "\<forall>a\<in>set [Item 1 (Some []), Item 2 (Some [])]. \<forall>b\<in>set [Item 3 (Some [])].
                 pkWritten a < pkWritten b"
      and r2: "mset (map pkWritten [Item 1 (Some []), Item 2 (Some [])])
                 + mset (map pkWritten [Item 3 (Some [])])
               = mset (map PK (treeItems (bt_root (tr threeKeys))))"
    by blast
  have "files s' ''1_2.spdb'' = Some [6, 0, 0, 0, 1, 0, 0, 0, 0, 0, 6, 0, 0, 0, 2, 0, 0, 0, 0, 0]"
    "files s' ''3_3.spdb'' = Some [6, 0, 0, 0, 3, 0, 0, 0, 0, 0]"
    using f1 f2 by (simp_all add: showInt_small sg)
  then have f: "\<exists>s'. writeMapToFile threeKeys 40 = Some s'
          \<and> files s' ''1_2.spdb''
               = Some [6, 0, 0, 0, 1, 0, 0, 0, 0, 0, 6, 0, 0, 0, 2, 0, 0, 0, 0, 0]
          \<and> files s' ''3_3.spdb'' = Some [6, 0, 0, 0, 3, 0, 0, 0, 0, 0]"
    using w by blast
  have la: "list_all (\<lambda>x. \<not> encodeFails x) (treeItems (bt_root (tr threeKeys)))"
    "list_all (\<lambda>x. 0 \<le> PK x \<and> PK x < 2 ^ 32) (treeItems (bt_root (tr threeKeys)))"
    using e g by (simp_all only: list_all_iff)
  have lb: "list_all (\<lambda>a. pkWritten a < pkWritten (Item 3 (Some [])))
        [Item 1 (Some []), Item 2 (Some [])]"
    using r1 by simp
  show ?thesis using u la m f lb r2 by blast
qed

text \<open>
  Claim C3, as stated, fails. The index holds the keys 1 and 4294967297, which is
  \<open>2^32 + 1\<close>, and the budget is 20 bytes: the flush makes a lower and an upper
  segment, and both hold one record whose key field is 1.
\<close>

definition wrappedKeys :: State where
  "wrappedKeys =
     \<lparr>currentMapSize = 45, minKey = 1, maxKey = 4294967297, setMinMaxKey = True,
      tr = \<lparr>bt_t = 32,
             bt_root = Node True [Item 1 (Some []), Item 4294967297 (Some [])] [],
             bt_n = 2\<rparr>,
      files = noFiles\<rparr>"

lemma digit_chars:
  "char_of (48 :: nat) = CHR ''0''" "char_of (49 :: nat) = CHR ''1''"
  "char_of (50 :: nat) = CHR ''2''" "char_of (51 :: nat) = CHR ''3''"
  "char_of (52 :: nat) = CHR ''4''" "char_of (53 :: nat) = CHR ''5''"
  "char_of (54 :: nat) = CHR ''6''" "char_of (55 :: nat) = CHR ''7''"
  "char_of (56 :: nat) = CHR ''8''" "char_of (57 :: nat) = CHR ''9''"
  by code_simp+

lemma showNat_numeral:
  "showNat (numeral k)
     = (if numeral k < (10 :: nat) then [char_of (48 + numeral k :: nat)]
        else showNat (numeral k div 10) @ [char_of (48 + numeral k mod 10 :: nat)])"
  by (rule showNat.simps)

lemma showInt_wrapped: "showInt 4294967297 = ''4294967297''"
  by (simp add: showInt_def showNat_numeral digit_chars)

theorem flush_disjoint_counterexample:
  "upserts (New 32) [Item 1 (Some []), Item 4294967297 (Some [])] = Some (tr wrappedKeys)
   \<and> writeMapToFile wrappedKeys 20
       = Some \<lparr>currentMapSize = 0, minKey = 0, maxKey = 0, setMinMaxKey = False, tr = New 32,
               files = (noFiles(''1_1.spdb'' \<mapsto> [6, 0, 0, 0, 1, 0, 0, 0, 0, 0]))
                         (''4294967297_4294967297.spdb'' \<mapsto> [6, 0, 0, 0, 1, 0, 0, 0, 0, 0])\<rparr>
   \<and> pkWritten (Item 1 (Some [])) = 1
   \<and> pkWritten (Item 4294967297 (Some [])) = 1"
proof -
  have u: "upserts (New 32) [Item 1 (Some []), Item 4294967297 (Some [])] = Some (tr wrappedKeys)"
    unfolding wrappedKeys_def by code_simp
  have i: "btInv (tr wrappedKeys)" by (rule reachable_inv(1)[OF u])
  have e: "\<forall>x\<in>set (inorder (bt_root (tr wrappedKeys))). \<not> encodeFails x"
    by (simp add: wrappedKeys_def encodeFails_def entries_def)
  have r: "recordOf (Item 1 (Some [])) = [6, 0, 0, 0, 1, 0, 0, 0, 0, 0]"
    "recordOf (Item 4294967297 (Some [])) = [6, 0, 0, 0, 1, 0, 0, 0, 0, 0]"
    by (simp_all add: recordOf_empty_row appendU32_def)
  have f: "flushFiles noFiles 1 4294967297 20 [Item 1 (Some []), Item 4294967297 (Some [])]
             = (noFiles(''1_1.spdb'' \<mapsto> [6, 0, 0, 0, 1, 0, 0, 0, 0, 0]))
                 (''4294967297_4294967297.spdb'' \<mapsto> [6, 0, 0, 0, 1, 0, 0, 0, 0, 0])"
    by (simp add: flushFiles_def Let_def r segment_def showInt_small showInt_wrapped
          renameFile_def noFiles_None)
  have w: "writeMapToFile wrappedKeys 20
       = Some \<lparr>currentMapSize = 0, minKey = 0, maxKey = 0, setMinMaxKey = False, tr = New 32,
               files = (noFiles(''1_1.spdb'' \<mapsto> [6, 0, 0, 0, 1, 0, 0, 0, 0, 0]))
                         (''4294967297_4294967297.spdb'' \<mapsto> [6, 0, 0, 0, 1, 0, 0, 0, 0, 0])\<rparr>"
    using writeMapToFile_ok[OF i e, of 20] f
    by (simp add: wrappedKeys_def resetInMemoryState_def)
  have p: "pkWritten (Item 1 (Some [])) = 1" "pkWritten (Item 4294967297 (Some [])) = 1"
    by (simp_all add: pkWritten_mod)
  show ?thesis using u w p by blast
qed

section \<open>The end of the input\<close>

text \<open>The trackers stay in order during a pass.\<close>

lemma trackKey_ordered:
  "minKey s \<le> maxKey s \<Longrightarrow> minKey (trackKey s k) \<le> maxKey (trackKey s k)"
  by (auto simp: trackKey_def Let_def)

lemma ordered_step:
  assumes "btInv (tr s)" "minKey s \<le> maxKey s" "ingestLine w M s ln = Inr s'"
  shows "btInv (tr s') \<and> minKey s' \<le> maxKey s'"
proof -
  have "decoded ln \<noteq> None" using ingestLine_exit[OF assms(1), of ln w M] assms(3) by auto
  then obtain pairs where d: "decoded ln = Some pairs" by auto
  from ingestLine_spec[OF assms(1) d, of w M] obtain s0 b'
    where a: "if w \<and> of_nat (length (raw ln)) + currentMapSize s > M
            then writeMapToFile s M = Some s0 else s0 = s"
      and ib: "btInv b'"
      and r: "ingestLine w M s ln
              = Inr ((case pairs of [] \<Rightarrow> s0 | p # ps \<Rightarrow> trackKey s0 (lineKey pairs))
                      \<lparr>tr := b',
                       currentMapSize :=
                         (if w then currentMapSize s0 + of_nat (length (raw ln))
                          else currentMapSize s0)\<rparr>)"
    by blast
  have o0: "minKey s0 \<le> maxKey s0"
  proof (cases "w \<and> of_nat (length (raw ln)) + currentMapSize s > M")
    case True
    from writeMapToFile_total[OF assms(1), of M] obtain fs'
      where "writeMapToFile s M = Some (resetInMemoryState (s\<lparr>files := fs'\<rparr>))" by blast
    then have "s0 = resetInMemoryState (s\<lparr>files := fs'\<rparr>)" using a True by simp
    then show ?thesis by (simp add: reset_inv)
  next
    case False
    then show ?thesis using a assms(2) by simp
  qed
  have "minKey (case pairs of [] \<Rightarrow> s0 | p # ps \<Rightarrow> trackKey s0 (lineKey pairs))
          \<le> maxKey (case pairs of [] \<Rightarrow> s0 | p # ps \<Rightarrow> trackKey s0 (lineKey pairs))"
    using o0 by (cases pairs) (simp_all add: trackKey_ordered)
  then show ?thesis using r ib assms(3) by auto
qed

lemma ordered_steps:
  "btInv (tr s) \<Longrightarrow> minKey s \<le> maxKey s \<Longrightarrow> ingestLines w M s lns = Inr s' \<Longrightarrow>
   btInv (tr s') \<and> minKey s' \<le> maxKey s'"
proof (induction lns arbitrary: s)
  case Nil
  then show ?case by simp
next
  case (Cons ln lns)
  from Cons.prems(3) obtain s1 where r: "ingestLine w M s ln = Inr s1"
    and rest: "ingestLines w M s1 lns = Inr s'"
    by (auto split: sum.splits)
  from ordered_step[OF Cons.prems(1,2) r] Cons.IH[OF _ _ rest] show ?case by blast
qed

text \<open>
  The item that a line gives, and the items that a sequence of lines leaves in an
  index that is never flushed: each line's item is put in by its key, replacing
  the item of an earlier line with that key.
\<close>

definition lineItem :: "Line \<Rightarrow> Item" where
  "lineItem ln =
     (let pairs = (case decoded ln of None \<Rightarrow> [] | Some ps \<Rightarrow> ps)
      in Item (lineKey pairs) (Some (lineRow pairs)))"

definition buffered :: "Line list \<Rightarrow> Item list" where
  "buffered lns = foldl (\<lambda>xs ln. upsertList (lineItem ln) xs) [] lns"

lemma unwritten_step:
  assumes "btInv (tr s)" "ingestLine False M s ln = Inr s'"
  shows "btInv (tr s') \<and> files s' = files s
       \<and> inorder (bt_root (tr s')) = upsertList (lineItem ln) (inorder (bt_root (tr s)))"
proof -
  have "decoded ln \<noteq> None" using ingestLine_exit[OF assms(1), of ln False M] assms(2) by auto
  then obtain pairs where d: "decoded ln = Some pairs" by auto
  from ingestLine_spec[OF assms(1) d, of False M] obtain s0 b'
    where a: "s0 = s"
      and ib: "btInv b'"
      and io: "inorder (bt_root b')
              = upsertList (Item (lineKey pairs) (Some (lineRow pairs))) (inorder (bt_root (tr s0)))"
      and r: "ingestLine False M s ln
              = Inr ((case pairs of [] \<Rightarrow> s0 | p # ps \<Rightarrow> trackKey s0 (lineKey pairs))
                      \<lparr>tr := b', currentMapSize := currentMapSize s0\<rparr>)"
    by auto
  have li: "lineItem ln = Item (lineKey pairs) (Some (lineRow pairs))"
    by (simp add: lineItem_def d)
  have "files ((case pairs of [] \<Rightarrow> s0 | p # ps \<Rightarrow> trackKey s0 (lineKey pairs))
                      \<lparr>tr := b', currentMapSize := currentMapSize s0\<rparr>) = files s"
    using a by (cases pairs) (simp_all add: trackKey_frame)
  then show ?thesis using r ib io a li assms(2) by auto
qed

lemma unwritten_steps:
  "btInv (tr s) \<Longrightarrow> ingestLines False M s lns = Inr s' \<Longrightarrow>
   btInv (tr s') \<and> files s' = files s
   \<and> inorder (bt_root (tr s'))
       = foldl (\<lambda>xs ln. upsertList (lineItem ln) xs) (inorder (bt_root (tr s))) lns"
proof (induction lns arbitrary: s)
  case Nil
  then show ?case by simp
next
  case (Cons ln lns)
  from Cons.prems(2) obtain s1 where r: "ingestLine False M s ln = Inr s1"
    and rest: "ingestLines False M s1 lns = Inr s'"
    by (auto split: sum.splits)
  from unwritten_step[OF Cons.prems(1) r] Cons.IH[OF _ rest] show ?case by simp
qed

lemma keys_foldl_upsertList:
  "PK ` set (foldl (\<lambda>xs ln. upsertList (lineItem ln) xs) xs0 lns)
     = PK ` set xs0 \<union> (\<lambda>ln. PK (lineItem ln)) ` set lns"
  by (induction lns arbitrary: xs0) (auto simp: keys_upsertList)

lemma keys_buffered: "PK ` set (buffered lns) = (\<lambda>ln. PK (lineItem ln)) ` set lns"
  by (simp add: buffered_def keys_foldl_upsertList)

text \<open>
  Claim C4, as amended. From the state in which \<open>main\<close> starts: when the input
  file is larger than \<open>MaxMemorySize\<close> and every line decodes, the import ends
  with an empty index; if the index is not empty when the lines are exhausted, that
  is by one final \<open>writeMapToFile\<close>, and when the buffered items all encode
  without error (opening and writing the files does not fail), the records of all
  of them are then in the segment files: with \<open>xs\<close> the buffered items in
  ascending order, the lower file holds the records of \<open>lo\<close> and, when items
  remain, the upper file holds the records of the remaining items \<open>hi\<close>. When the
  input file is not larger than \<open>MaxMemorySize\<close>, nothing is flushed: the import
  is the scanner loop alone, the files are as they were, and the index holds the
  item of every line, the last one for each key. A line that does not decode ends
  the run.
\<close>

theorem final_flush_gated:
  "(sizeBytes inp > M \<longrightarrow>
      (case ingestLines True M (initState fs) (lines inp) of
         Inl e \<Rightarrow> importDataFromFile inp M (initState fs) = Inl Exit
       | Inr s1 \<Rightarrow>
           if 0 < Len (tr s1)
           then \<exists>s2. writeMapToFile s1 M = Some s2
                  \<and> importDataFromFile inp M (initState fs) = Inr s2
                  \<and> Len (tr s2) = 0 \<and> treeItems (bt_root (tr s2)) = []
                  \<and> ((\<forall>x\<in>set (treeItems (bt_root (tr s1))). \<not> encodeFails x) \<longrightarrow>
                       (let xs = inorder (bt_root (tr s1));
                            lo = written (M div 2) 0 xs;
                            hi = drop (length lo) xs
                        in mset (lo @ hi) = mset (treeItems (bt_root (tr s1)))
                           \<and> files s2 (showInt (minKey s1) @ ''_''
                                         @ showInt (returned (M div 2) 0 xs) @ ''.spdb'')
                               = Some (segment lo)
                           \<and> (hi \<noteq> [] \<longrightarrow>
                                files s2 (showInt (PK (hd hi)) @ ''_''
                                           @ showInt (maxKey s1) @ ''.spdb'')
                                  = Some (segment hi))))
           else importDataFromFile inp M (initState fs) = Inr s1
                  \<and> treeItems (bt_root (tr s1)) = []))
   \<and> (\<not> sizeBytes inp > M \<longrightarrow>
      (case importDataFromFile inp M (initState fs) of
         Inl e \<Rightarrow> e = Exit
       | Inr s' \<Rightarrow> ingestLines False M (initState fs) (lines inp) = Inr s'
                  \<and> files s' = fs
                  \<and> mset (treeItems (bt_root (tr s'))) = mset (buffered (lines inp))
                  \<and> Len (tr s') = length (buffered (lines inp))
                  \<and> PK ` set (treeItems (bt_root (tr s')))
                      = (\<lambda>ln. PK (lineItem ln)) ` set (lines inp)))"
proof (intro conjI impI)
  assume big: "sizeBytes inp > M"
  let ?goal = "case ingestLines True M (initState fs) (lines inp) of
         Inl e \<Rightarrow> importDataFromFile inp M (initState fs) = Inl Exit
       | Inr s1 \<Rightarrow>
           if 0 < Len (tr s1)
           then \<exists>s2. writeMapToFile s1 M = Some s2
                  \<and> importDataFromFile inp M (initState fs) = Inr s2
                  \<and> Len (tr s2) = 0 \<and> treeItems (bt_root (tr s2)) = []
                  \<and> ((\<forall>x\<in>set (treeItems (bt_root (tr s1))). \<not> encodeFails x) \<longrightarrow>
                       (let xs = inorder (bt_root (tr s1));
                            lo = written (M div 2) 0 xs;
                            hi = drop (length lo) xs
                        in mset (lo @ hi) = mset (treeItems (bt_root (tr s1)))
                           \<and> files s2 (showInt (minKey s1) @ ''_''
                                         @ showInt (returned (M div 2) 0 xs) @ ''.spdb'')
                               = Some (segment lo)
                           \<and> (hi \<noteq> [] \<longrightarrow>
                                files s2 (showInt (PK (hd hi)) @ ''_''
                                           @ showInt (maxKey s1) @ ''.spdb'')
                                  = Some (segment hi))))
           else importDataFromFile inp M (initState fs) = Inr s1
                  \<and> treeItems (bt_root (tr s1)) = []"
  from ingestLines_cases[OF initState_inv(1), of True M fs "lines inp"]
  show ?goal
  proof
    assume "ingestLines True M (initState fs) (lines inp) = Inl Exit"
    then show ?thesis using big by (simp add: importDataFromFile_def)
  next
    assume "\<exists>s'. ingestLines True M (initState fs) (lines inp) = Inr s' \<and> btInv (tr s')
                \<and> (\<not> True \<longrightarrow> files s' = files (initState fs))"
    then obtain s1 where r: "ingestLines True M (initState fs) (lines inp) = Inr s1"
      and i: "btInv (tr s1)" by blast
    have o: "minKey s1 \<le> maxKey s1"
      using ordered_steps[OF initState_inv(1) _ r] by (simp add: initState_def)
    show ?thesis
    proof (cases "0 < Len (tr s1)")
      case True
      from writeMapToFile_total[OF i, of M] obtain fs'
        where w: "writeMapToFile s1 M = Some (resetInMemoryState (s1\<lparr>files := fs'\<rparr>))" by blast
      define s2 where "s2 = resetInMemoryState (s1\<lparr>files := fs'\<rparr>)"
      have e: "Len (tr s2) = 0" "treeItems (bt_root (tr s2)) = []"
        by (simp_all add: s2_def resetInMemoryState_def New_def Len_def)
      have imp: "importDataFromFile inp M (initState fs) = Inr s2"
        using True r w big by (simp add: importDataFromFile_def s2_def)
      have fl: "let xs = inorder (bt_root (tr s1));
                            lo = written (M div 2) 0 xs;
                            hi = drop (length lo) xs
                        in mset (lo @ hi) = mset (treeItems (bt_root (tr s1)))
                           \<and> files s2 (showInt (minKey s1) @ ''_''
                                         @ showInt (returned (M div 2) 0 xs) @ ''.spdb'')
                               = Some (segment lo)
                           \<and> (hi \<noteq> [] \<longrightarrow>
                                files s2 (showInt (PK (hd hi)) @ ''_''
                                           @ showInt (maxKey s1) @ ''.spdb'')
                                  = Some (segment hi))"
        if enc: "\<forall>x\<in>set (treeItems (bt_root (tr s1))). \<not> encodeFails x"
      proof -
        from flush_split[OF i enc o, of M] obtain s'
          where w': "writeMapToFile s1 M = Some s'"
            and sp: "let xs = inorder (bt_root (tr s1));
                         lo = written (M div 2) 0 xs;
                         hi = drop (length lo) xs
                     in sorted_wrt (<) (map PK xs) \<and> mset xs = mset (treeItems (bt_root (tr s1)))
                        \<and> lo @ hi = xs
                        \<and> files s' (showInt (minKey s1) @ ''_''
                                     @ showInt (returned (M div 2) 0 xs) @ ''.spdb'')
                             = Some (segment lo)
                        \<and> (hi \<noteq> [] \<longrightarrow>
                             lo \<noteq> [] \<and> returned (M div 2) 0 xs = PK (last lo)
                           \<and> files s' (showInt (PK (hd hi)) @ ''_'' @ showInt (maxKey s1) @ ''.spdb'')
                               = Some (segment hi)
                           \<and> (\<forall>a\<in>set lo. \<forall>b\<in>set hi. PK a < PK b))"
          by blast
        have "s' = s2" using w w' by (simp add: s2_def)
        then show ?thesis using sp unfolding Let_def by simp
      qed
      show ?thesis using True r w e imp fl by (simp add: s2_def)
    next
      case False
      then have "length (treeItems (bt_root (tr s1))) = 0"
        using btInv_items(2)[OF i] by (simp add: Len_def)
      then show ?thesis using False r big by (simp add: importDataFromFile_def)
    qed
  qed
next
  assume small: "\<not> sizeBytes inp > M"
  have e: "importDataFromFile inp M (initState fs) = ingestLines False M (initState fs) (lines inp)"
    using small by (simp add: importDataFromFile_def split: sum.splits)
  from ingestLines_cases[OF initState_inv(1), of False M fs "lines inp"]
  show "case importDataFromFile inp M (initState fs) of
         Inl e \<Rightarrow> e = Exit
       | Inr s' \<Rightarrow> ingestLines False M (initState fs) (lines inp) = Inr s'
                  \<and> files s' = fs
                  \<and> mset (treeItems (bt_root (tr s'))) = mset (buffered (lines inp))
                  \<and> Len (tr s') = length (buffered (lines inp))
                  \<and> PK ` set (treeItems (bt_root (tr s')))
                      = (\<lambda>ln. PK (lineItem ln)) ` set (lines inp)"
  proof
    assume "ingestLines False M (initState fs) (lines inp) = Inl Exit"
    then show ?thesis by (simp add: e)
  next
    assume "\<exists>s'. ingestLines False M (initState fs) (lines inp) = Inr s' \<and> btInv (tr s')
                \<and> (\<not> False \<longrightarrow> files s' = files (initState fs))"
    then obtain s' where r: "ingestLines False M (initState fs) (lines inp) = Inr s'"
      and i: "btInv (tr s')" and f: "files s' = fs" by (auto simp: initState_inv)
    have "inorder (bt_root (tr (initState fs))) = []"
      by (simp add: initState_def New_inorder)
    then have io: "inorder (bt_root (tr s')) = buffered (lines inp)"
      using unwritten_steps[OF initState_inv(1) r] by (simp add: buffered_def)
    have m: "mset (treeItems (bt_root (tr s'))) = mset (buffered (lines inp))"
      using btInv_items(1)[OF i] io by simp
    then have st: "set (treeItems (bt_root (tr s'))) = set (buffered (lines inp))"
      by (rule mset_eq_setD)
    have ln: "length (treeItems (bt_root (tr s'))) = length (buffered (lines inp))"
      using m by (rule mset_eq_length)
    have k: "PK ` set (treeItems (bt_root (tr s'))) = (\<lambda>ln. PK (lineItem ln)) ` set (lines inp)"
      unfolding st by (rule keys_buffered)
    show ?thesis using r f m k ln btInv_items(2)[OF i] by (simp add: e Len_def)
  qed
qed

subsection \<open>A pass over two records with a string field\<close>

text \<open>
  An input file of two lines, \<open>{"k":1,"a":""}\<close> and \<open>{"k":2,"a":""}\<close>, each 14
  bytes and a newline; the record of each is 17 bytes.
\<close>

definition stringLines :: "Line list" where
  "stringLines =
     [Line ''{\"k\":1,\"a\":\"\"}'' (Some [(''k'', VNumber ''1''), (''a'', VString '''')]),
      Line ''{\"k\":2,\"a\":\"\"}'' (Some [(''k'', VNumber ''2''), (''a'', VString '''')])]"

definition stringRecords :: Input where
  "stringRecords = \<lparr>sizeBytes = 30, lines = stringLines\<rparr>"

definition stringPass :: State where
  "stringPass =
     \<lparr>currentMapSize = 28, minKey = 1, maxKey = 2, setMinMaxKey = True,
      tr = \<lparr>bt_t = 32,
             bt_root = Node True [Item 1 (Some [(''a'', VString '''')]),
                                  Item 2 (Some [(''a'', VString '''')])] [],
             bt_n = 2\<rparr>,
      files = noFiles\<rparr>"

lemma Upsert_string_first:
  "Upsert (New 32) (Item 1 (Some [(''a'', VString '''')]))
     = Some (\<lparr>bt_t = 32, bt_root = Node True [Item 1 (Some [(''a'', VString '''')])] [],
              bt_n = Suc 0\<rparr>, zeroItem, False)"
  by code_simp

lemma Upsert_string_second:
  "Upsert \<lparr>bt_t = 32, bt_root = Node True [Item 1 (Some [(''a'', VString '''')])] [],
           bt_n = Suc 0\<rparr> (Item 2 (Some [(''a'', VString '''')]))
     = Some (\<lparr>bt_t = 32,
              bt_root = Node True [Item 1 (Some [(''a'', VString '''')]),
                                   Item 2 (Some [(''a'', VString '''')])] [],
              bt_n = 2\<rparr>, zeroItem, False)"
  by code_simp

lemma pass_28: "ingestLines True 28 (initState noFiles) stringLines = Inr stringPass"
proof -
  let ?s1 = "\<lparr>currentMapSize = 14, minKey = 1, maxKey = 1, setMinMaxKey = True,
      tr = \<lparr>bt_t = 32, bt_root = Node True [Item 1 (Some [(''a'', VString '''')])] [],
             bt_n = Suc 0\<rparr>, files = noFiles\<rparr>"
  have a: "ingestLine True 28 (initState noFiles)
             (Line ''{\"k\":1,\"a\":\"\"}'' (Some [(''k'', VNumber ''1''), (''a'', VString '''')]))
             = Inr ?s1"
    by (simp add: ingestLine_def initState_def Let_def parseInt64_small trackKey_def
          Upsert_string_first)
  have b: "ingestLine True 28 ?s1
             (Line ''{\"k\":2,\"a\":\"\"}'' (Some [(''k'', VNumber ''2''), (''a'', VString '''')]))
             = Inr stringPass"
    by (simp add: ingestLine_def Let_def parseInt64_small trackKey_def Upsert_string_second
          stringPass_def)
  show ?thesis by (simp add: stringLines_def a b)
qed

lemma recordOf_string_row:
  "recordOf (Item k (Some [(''a'', VString '''')]))
     = [13, 0, 0, 0] @ appendU32 [] (word_of_int k) @ [1, 0, 1, 97, 4, 0, 0, 0, 0]"
  by (simp add: recordOf_def encodeItemInto_def entries_def appendU32_def appendU16_def Let_def
        bytesOf_def tagString_def)

text \<open>
  Claim C4, as amended, on three runs. The two-line input with a budget of 30
  bytes: the index holds the second item when the lines are exhausted, and the
  final flush puts its record in a file. The input with a string field with a
  budget of 28 bytes: both items are in the index when the lines are exhausted,
  and the final flush puts the record of the first in the lower file and the
  record of the second in the upper file. The two-line input with a budget of
  1000 bytes: nothing is flushed and the index holds both items.
\<close>

theorem final_flush_gated_witness:
  "30 < sizeBytes twoRecords
   \<and> ingestLines True 30 (initState noFiles) (lines twoRecords) = Inr afterPass
   \<and> 0 < Len (tr afterPass)
   \<and> list_all (\<lambda>x. \<not> encodeFails x) (treeItems (bt_root (tr afterPass)))
   \<and> (\<exists>s2. writeMapToFile afterPass 30 = Some s2
          \<and> importDataFromFile twoRecords 30 (initState noFiles) = Inr s2
          \<and> Len (tr s2) = 0 \<and> treeItems (bt_root (tr s2)) = []
          \<and> files s2 ''2_0.spdb'' = Some [6, 0, 0, 0, 2, 0, 0, 0, 0, 0])
   \<and> 28 < sizeBytes stringRecords
   \<and> ingestLines True 28 (initState noFiles) (lines stringRecords) = Inr stringPass
   \<and> 0 < Len (tr stringPass)
   \<and> list_all (\<lambda>x. \<not> encodeFails x) (treeItems (bt_root (tr stringPass)))
   \<and> (\<exists>s2. writeMapToFile stringPass 28 = Some s2
          \<and> importDataFromFile stringRecords 28 (initState noFiles) = Inr s2
          \<and> Len (tr s2) = 0 \<and> treeItems (bt_root (tr s2)) = []
          \<and> files s2 ''1_1.spdb'' = Some [13, 0, 0, 0, 1, 0, 0, 0, 1, 0, 1, 97, 4, 0, 0, 0, 0]
          \<and> files s2 ''2_2.spdb'' = Some [13, 0, 0, 0, 2, 0, 0, 0, 1, 0, 1, 97, 4, 0, 0, 0, 0])
   \<and> sizeBytes twoRecords \<le> 1000
   \<and> importDataFromFile twoRecords 1000 (initState noFiles) = Inr bothBuffered
   \<and> ingestLines False 1000 (initState noFiles) (lines twoRecords) = Inr bothBuffered
   \<and> files bothBuffered = noFiles
   \<and> buffered (lines twoRecords) = [Item 1 (Some []), Item 2 (Some [])]
   \<and> mset (treeItems (bt_root (tr bothBuffered))) = mset (buffered (lines twoRecords))
   \<and> Len (tr bothBuffered) = length (buffered (lines twoRecords))"
proof -
  have big: "30 < sizeBytes twoRecords" and small: "\<not> 1000 < sizeBytes twoRecords"
    and sm: "sizeBytes twoRecords \<le> 1000"
    by (simp_all add: twoRecords_def)
  have l: "lines twoRecords = twoLines" by (simp add: twoRecords_def)
  have n: "0 < Len (tr afterPass)" by (simp add: afterPass_def Len_def)
  have enc: "\<forall>x\<in>set (treeItems (bt_root (tr afterPass))). \<not> encodeFails x"
    by (simp add: afterPass_def encodeFails_def entries_def)
  have x: "inorder (bt_root (tr afterPass)) = [Item 2 (Some [])]" "minKey afterPass = 2"
    by (simp_all add: afterPass_def)
  have wr: "written ((30 :: 64 word) div 2) 0 [Item 2 (Some [])] = [Item 2 (Some [])]"
    "returned ((30 :: 64 word) div 2) 0 [Item 2 (Some [])] = 0"
    by (simp_all add: recordOf_empty_row appendU32_def)
  have sg: "segment [Item 2 (Some [])] = [6, 0, 0, 0, 2, 0, 0, 0, 0, 0]"
    by (simp add: segment_def recordOf_empty_row appendU32_def)
  from final_flush_gated[of 30 twoRecords noFiles] big
  have "case ingestLines True 30 (initState noFiles) (lines twoRecords) of
         Inl e \<Rightarrow> importDataFromFile twoRecords 30 (initState noFiles) = Inl Exit
       | Inr s1 \<Rightarrow>
           if 0 < Len (tr s1)
           then \<exists>s2. writeMapToFile s1 30 = Some s2
                  \<and> importDataFromFile twoRecords 30 (initState noFiles) = Inr s2
                  \<and> Len (tr s2) = 0 \<and> treeItems (bt_root (tr s2)) = []
                  \<and> ((\<forall>x\<in>set (treeItems (bt_root (tr s1))). \<not> encodeFails x) \<longrightarrow>
                       (let xs = inorder (bt_root (tr s1));
                            lo = written (30 div 2) 0 xs;
                            hi = drop (length lo) xs
                        in mset (lo @ hi) = mset (treeItems (bt_root (tr s1)))
                           \<and> files s2 (showInt (minKey s1) @ ''_''
                                         @ showInt (returned (30 div 2) 0 xs) @ ''.spdb'')
                               = Some (segment lo)
                           \<and> (hi \<noteq> [] \<longrightarrow>
                                files s2 (showInt (PK (hd hi)) @ ''_''
                                           @ showInt (maxKey s1) @ ''.spdb'')
                                  = Some (segment hi))))
           else importDataFromFile twoRecords 30 (initState noFiles) = Inr s1
                  \<and> treeItems (bt_root (tr s1)) = []"
    by blast
  then obtain s2 where a1: "writeMapToFile afterPass 30 = Some s2"
      and a2: "importDataFromFile twoRecords 30 (initState noFiles) = Inr s2"
      and a3: "Len (tr s2) = 0" "treeItems (bt_root (tr s2)) = []"
      and a4: "let xs = inorder (bt_root (tr afterPass));
                            lo = written (30 div 2) 0 xs;
                            hi = drop (length lo) xs
                        in mset (lo @ hi) = mset (treeItems (bt_root (tr afterPass)))
                           \<and> files s2 (showInt (minKey afterPass) @ ''_''
                                         @ showInt (returned (30 div 2) 0 xs) @ ''.spdb'')
                               = Some (segment lo)
                           \<and> (hi \<noteq> [] \<longrightarrow>
                                files s2 (showInt (PK (hd hi)) @ ''_''
                                           @ showInt (maxKey afterPass) @ ''.spdb'')
                                  = Some (segment hi))"
    using enc n unfolding l pass_30 by auto
  have "files s2 ''2_0.spdb'' = Some [6, 0, 0, 0, 2, 0, 0, 0, 0, 0]"
    using a4 unfolding Let_def x wr by (simp add: showInt_small sg)
  then have A: "\<exists>s2. writeMapToFile afterPass 30 = Some s2
          \<and> importDataFromFile twoRecords 30 (initState noFiles) = Inr s2
          \<and> Len (tr s2) = 0 \<and> treeItems (bt_root (tr s2)) = []
          \<and> files s2 ''2_0.spdb'' = Some [6, 0, 0, 0, 2, 0, 0, 0, 0, 0]"
    using a1 a2 a3 by blast
  have big': "28 < sizeBytes stringRecords" by (simp add: stringRecords_def)
  have l': "lines stringRecords = stringLines" by (simp add: stringRecords_def)
  have n': "0 < Len (tr stringPass)" by (simp add: stringPass_def Len_def)
  have enc': "\<forall>x\<in>set (treeItems (bt_root (tr stringPass))). \<not> encodeFails x"
    by (simp add: stringPass_def encodeFails_def entries_def)
  have x': "inorder (bt_root (tr stringPass))
              = [Item 1 (Some [(''a'', VString [])]), Item 2 (Some [(''a'', VString [])])]"
    "minKey stringPass = 1" "maxKey stringPass = 2"
    by (simp_all add: stringPass_def)
  have wr': "written ((28 :: 64 word) div 2) 0
               [Item 1 (Some [(''a'', VString [])]), Item 2 (Some [(''a'', VString [])])]
             = [Item 1 (Some [(''a'', VString [])])]"
    "returned ((28 :: 64 word) div 2) 0
               [Item 1 (Some [(''a'', VString [])]), Item 2 (Some [(''a'', VString [])])] = 1"
    by (simp_all add: recordOf_string_row appendU32_def)
  have h': "drop (length [Item 1 (Some [(''a'', VString [])])])
              [Item 1 (Some [(''a'', VString [])]), Item 2 (Some [(''a'', VString [])])]
            = [Item 2 (Some [(''a'', VString [])])]"
    by simp
  have sg': "segment [Item 1 (Some [(''a'', VString [])])]
               = [13, 0, 0, 0, 1, 0, 0, 0, 1, 0, 1, 97, 4, 0, 0, 0, 0]"
    "segment [Item 2 (Some [(''a'', VString [])])]
               = [13, 0, 0, 0, 2, 0, 0, 0, 1, 0, 1, 97, 4, 0, 0, 0, 0]"
    by (simp_all add: segment_def recordOf_string_row appendU32_def)
  from final_flush_gated[of 28 stringRecords noFiles] big'
  have "case ingestLines True 28 (initState noFiles) (lines stringRecords) of
         Inl e \<Rightarrow> importDataFromFile stringRecords 28 (initState noFiles) = Inl Exit
       | Inr s1 \<Rightarrow>
           if 0 < Len (tr s1)
           then \<exists>s2. writeMapToFile s1 28 = Some s2
                  \<and> importDataFromFile stringRecords 28 (initState noFiles) = Inr s2
                  \<and> Len (tr s2) = 0 \<and> treeItems (bt_root (tr s2)) = []
                  \<and> ((\<forall>x\<in>set (treeItems (bt_root (tr s1))). \<not> encodeFails x) \<longrightarrow>
                       (let xs = inorder (bt_root (tr s1));
                            lo = written (28 div 2) 0 xs;
                            hi = drop (length lo) xs
                        in mset (lo @ hi) = mset (treeItems (bt_root (tr s1)))
                           \<and> files s2 (showInt (minKey s1) @ ''_''
                                         @ showInt (returned (28 div 2) 0 xs) @ ''.spdb'')
                               = Some (segment lo)
                           \<and> (hi \<noteq> [] \<longrightarrow>
                                files s2 (showInt (PK (hd hi)) @ ''_''
                                           @ showInt (maxKey s1) @ ''.spdb'')
                                  = Some (segment hi))))
           else importDataFromFile stringRecords 28 (initState noFiles) = Inr s1
                  \<and> treeItems (bt_root (tr s1)) = []"
    by blast
  then obtain s3 where b1: "writeMapToFile stringPass 28 = Some s3"
      and b2: "importDataFromFile stringRecords 28 (initState noFiles) = Inr s3"
      and b3: "Len (tr s3) = 0" "treeItems (bt_root (tr s3)) = []"
      and b4: "let xs = inorder (bt_root (tr stringPass));
                            lo = written (28 div 2) 0 xs;
                            hi = drop (length lo) xs
                        in mset (lo @ hi) = mset (treeItems (bt_root (tr stringPass)))
                           \<and> files s3 (showInt (minKey stringPass) @ ''_''
                                         @ showInt (returned (28 div 2) 0 xs) @ ''.spdb'')
                               = Some (segment lo)
                           \<and> (hi \<noteq> [] \<longrightarrow>
                                files s3 (showInt (PK (hd hi)) @ ''_''
                                           @ showInt (maxKey stringPass) @ ''.spdb'')
                                  = Some (segment hi))"
    using enc' n' unfolding l' pass_28 by auto
  have "files s3 ''1_1.spdb'' = Some [13, 0, 0, 0, 1, 0, 0, 0, 1, 0, 1, 97, 4, 0, 0, 0, 0]"
    "files s3 ''2_2.spdb'' = Some [13, 0, 0, 0, 2, 0, 0, 0, 1, 0, 1, 97, 4, 0, 0, 0, 0]"
    using b4 unfolding Let_def x' wr' h' by (simp_all add: showInt_small sg')
  then have B: "\<exists>s2. writeMapToFile stringPass 28 = Some s2
          \<and> importDataFromFile stringRecords 28 (initState noFiles) = Inr s2
          \<and> Len (tr s2) = 0 \<and> treeItems (bt_root (tr s2)) = []
          \<and> files s2 ''1_1.spdb'' = Some [13, 0, 0, 0, 1, 0, 0, 0, 1, 0, 1, 97, 4, 0, 0, 0, 0]
          \<and> files s2 ''2_2.spdb'' = Some [13, 0, 0, 0, 2, 0, 0, 0, 1, 0, 1, 97, 4, 0, 0, 0, 0]"
    using b1 b2 b3 by blast
  have bf: "buffered (lines twoRecords) = [Item 1 (Some []), Item 2 (Some [])]"
    by (simp add: l twoLines_def buffered_def lineItem_def lineKey_def lineRow_def
          parseInt64_small)
  from final_flush_gated[of 1000 twoRecords noFiles] small
  have C: "ingestLines False 1000 (initState noFiles) (lines twoRecords) = Inr bothBuffered
     \<and> files bothBuffered = noFiles
     \<and> mset (treeItems (bt_root (tr bothBuffered))) = mset (buffered (lines twoRecords))
     \<and> Len (tr bothBuffered) = length (buffered (lines twoRecords))"
    by (simp add: import_unwritten)
  have la: "list_all (\<lambda>x. \<not> encodeFails x) (treeItems (bt_root (tr afterPass)))"
    "list_all (\<lambda>x. \<not> encodeFails x) (treeItems (bt_root (tr stringPass)))"
    using enc enc' by (simp_all only: list_all_iff)
  have p: "ingestLines True 30 (initState noFiles) (lines twoRecords) = Inr afterPass"
    "ingestLines True 28 (initState noFiles) (lines stringRecords) = Inr stringPass"
    by (simp_all only: l l' pass_30 pass_28)
  show ?thesis using big p n la A big' n' B sm import_unwritten C bf by blast
qed

end
